theory Spec2Isabelle
  imports Main
begin

section \<open>Python values, exceptions and the collaborators\<close>

text \<open>
  The workflow states hold values that come back from the language model and from the
  search tool, so their fields are dynamically typed. \<open>pyval\<close> covers the values
  that \<open>json.loads\<close> and the search tools produce. A \<open>PDict\<close> lists each key
  once; lookup takes the first binding.
\<close>

datatype pyval =
    PNone
  | PBool bool
  | PInt int
  | PStr string
  | PList "pyval list"
  | PDict "(string \<times> pyval) list"

datatype pyexc =
    JSONDecodeError
  | KeyError
  | TypeError
  | AttributeError
  | ValueError
  | IndexError
  | CollaboratorError

text \<open>\<open>v[key]\<close> for a string key: only a dict can be subscripted by a string.\<close>

fun py_getitem :: "pyval \<Rightarrow> string \<Rightarrow> pyexc + pyval" where
  "py_getitem (PDict kvs) key =
     (case map_of kvs key of None \<Rightarrow> Inl KeyError | Some v \<Rightarrow> Inr v)"
| "py_getitem v key = Inl TypeError"

text \<open>\<open>v.get(key, default)\<close>: an attribute of dicts only.\<close>

fun py_get :: "pyval \<Rightarrow> string \<Rightarrow> pyval \<Rightarrow> pyexc + pyval" where
  "py_get (PDict kvs) key dflt =
     (case map_of kvs key of None \<Rightarrow> Inr dflt | Some v \<Rightarrow> Inr v)"
| "py_get v key dflt = Inl AttributeError"

fun py_len :: "pyval \<Rightarrow> pyexc + nat" where
  "py_len (PStr s) = Inr (length s)"
| "py_len (PList xs) = Inr (length xs)"
| "py_len (PDict kvs) = Inr (length kvs)"
| "py_len v = Inl TypeError"

text \<open>
  Iteration: a list gives its elements, a dict its keys, a string its characters. A
  string is the list of its bytes, so \<open>py_len\<close> and \<open>py_iter\<close> count a
  character outside ASCII as its UTF-8 bytes; no statement below depends on how many
  characters such a string has.
\<close>

fun py_iter :: "pyval \<Rightarrow> pyexc + pyval list" where
  "py_iter (PList xs) = Inr xs"
| "py_iter (PDict kvs) = Inr (map (\<lambda>kv. PStr (fst kv)) kvs)"
| "py_iter (PStr s) = Inr (map (\<lambda>c. PStr [c]) s)"
| "py_iter v = Inl TypeError"

text \<open>\<open>isinstance(v, dict) and key in v\<close>.\<close>

fun is_dict_with :: "pyval \<Rightarrow> string \<Rightarrow> bool" where
  "is_dict_with (PDict kvs) key = (map_of kvs key \<noteq> None)"
| "is_dict_with v key = False"

text \<open>\<open>target.extend(x)\<close>: a method of lists, with any iterable argument.\<close>

fun py_extend :: "pyval \<Rightarrow> pyval \<Rightarrow> pyexc + pyval" where
  "py_extend (PList xs) x =
     (case py_iter x of Inl e \<Rightarrow> Inl e | Inr ys \<Rightarrow> Inr (PList (xs @ ys)))"
| "py_extend v x = Inl AttributeError"

text \<open>A list comprehension stops at the first element that raises.\<close>

fun collect :: "(pyexc + 'a) list \<Rightarrow> pyexc + 'a list" where
  "collect [] = Inr []"
| "collect (Inl e # rs) = Inl e"
| "collect (Inr x # rs) =
     (case collect rs of Inl e \<Rightarrow> Inl e | Inr xs \<Rightarrow> Inr (x # xs))"

text \<open>\<open>[r["url"] for r in search_results["results"]]\<close>.\<close>

definition result_urls :: "pyval \<Rightarrow> pyexc + pyval list" where
  "result_urls r =
     (case py_getitem r ''results'' of
        Inl e \<Rightarrow> Inl e
      | Inr rs \<Rightarrow>
          (case py_iter rs of
             Inl e \<Rightarrow> Inl e
           | Inr xs \<Rightarrow> collect (map (\<lambda>x. py_getitem x ''url'') xs)))"

text \<open>\<open>xs.index(x)\<close>: the position of the first equal element, or \<open>ValueError\<close>.\<close>

fun list_index :: "'a list \<Rightarrow> 'a \<Rightarrow> pyexc + nat" where
  "list_index [] x = Inl ValueError"
| "list_index (y # ys) x =
     (if y = x then Inr 0
      else (case list_index ys x of Inl e \<Rightarrow> Inl e | Inr i \<Rightarrow> Inr (Suc i)))"

text \<open>
  The collaborators. The language model and the search tool are external services whose
  answers the code cannot predict, so an environment fixes, for the step of the run and
  the number of the call inside that step, how each call ends: with an exception or
  with a value. \<open>json_loads\<close> is the library's parser (\<open>None\<close> when it raises
  \<open>JSONDecodeError\<close>), \<open>py_str\<close> is Python's \<open>str()\<close>, \<open>today\<close> is the
  formatted current date and \<open>tool_name\<close> the configured search tool.
\<close>

record env =
  llm :: "nat \<Rightarrow> nat \<Rightarrow> pyexc + string"
  search_tool :: "nat \<Rightarrow> nat \<Rightarrow> pyexc + pyval"
  json_loads :: "string \<Rightarrow> pyval option"
  py_str :: "pyval \<Rightarrow> string"
  today :: string
  tool_name :: string

text \<open>\<open>json.loads(content)[key]\<close>.\<close>

definition json_field :: "(string \<Rightarrow> pyval option) \<Rightarrow> string \<Rightarrow> string \<Rightarrow> pyexc + pyval" where
  "json_field loads content key =
     (case loads content of
        None \<Rightarrow> Inl JSONDecodeError
      | Some v \<Rightarrow> py_getitem v key)"

section \<open>The state classes\<close>

record base_state =
  search_query :: pyval
  web_research_results :: pyval
  sources_gathered :: "pyval list"

record research_state = base_state +
  research_topic :: string
  research_loop_count :: int
  running_summary :: string
  max_iterations :: int

record newsletter_state = base_state +
  date :: "string option"
  categories :: "string list"
  current_category :: "string option"
  search_tool_name :: string
  category_summaries :: "string option \<rightharpoonup> pyval"
  newsletter_summary :: string

section \<open>The graph executor\<close>

text \<open>
  A run starts at the entry node and, at each step, calls the current node on the state
  and then asks the edges for the successor, on the state the node returned. It finishes
  at a node without successor, and fails when a node raises. The fuel bounds the number
  of node calls; a run that is out of fuel is still \<open>Running\<close>, at the node it would
  call next. The step function \<open>node_fn\<close> is the call of the node followed by the
  write of what it returned: for a state class without reducers the write replaces
  every field, and the step is the node itself.
\<close>

datatype ('n, 's) run = Finished 's | Failed pyexc | Running 'n 's

fun run_graph ::
  "('n \<Rightarrow> nat \<Rightarrow> 's \<Rightarrow> pyexc + 's) \<Rightarrow> ('n \<Rightarrow> 's \<Rightarrow> 'n option) \<Rightarrow>
     nat \<Rightarrow> nat \<Rightarrow> 'n \<Rightarrow> 's \<Rightarrow> ('n, 's) run" where
  "run_graph node_fn succ 0 t n s = Running n s"
| "run_graph node_fn succ (Suc fuel) t n s =
     (case node_fn n t s of
        Inl e \<Rightarrow> Failed e
      | Inr s' \<Rightarrow>
          (case succ n s' of
             None \<Rightarrow> Finished s'
           | Some n' \<Rightarrow> run_graph node_fn succ fuel (Suc t) n' s'))"

section \<open>The deep research graph\<close>

definition dr_initialize_state :: "research_state \<Rightarrow> pyexc + research_state" where
  "dr_initialize_state s =
     Inr (s\<lparr>research_loop_count := 0,
            web_research_results := PList [],
            sources_gathered := [],
            running_summary := ''''\<rparr>)"

text \<open>
  The call of the model is outside the \<open>try\<close>; the handler catches
  \<open>JSONDecodeError\<close> and \<open>KeyError\<close> only.
\<close>

definition dr_generate_search_query ::
  "(string \<Rightarrow> pyval option) \<Rightarrow> pyexc + string \<Rightarrow> research_state \<Rightarrow> pyexc + research_state" where
  "dr_generate_search_query loads reply s =
     (case reply of
        Inl e \<Rightarrow> Inl e
      | Inr content \<Rightarrow>
          (case json_field loads content ''query'' of
             Inr q \<Rightarrow> Inr (s\<lparr>search_query := q\<rparr>)
           | Inl e \<Rightarrow>
               if e = JSONDecodeError \<or> e = KeyError
               then Inr (s\<lparr>search_query := PStr (research_topic s)\<rparr>)
               else Inl e))"

definition search_web :: "pyexc + pyval \<Rightarrow> research_state \<Rightarrow> pyexc + research_state" where
  "search_web found s =
     (case found of
        Inl e \<Rightarrow> Inl e
      | Inr r \<Rightarrow>
          (case py_extend (web_research_results s) r of
             Inl e \<Rightarrow> Inl e
           | Inr w \<Rightarrow>
               if is_dict_with r ''results''
               then (case result_urls r of
                       Inl e \<Rightarrow> Inl e
                     | Inr urls \<Rightarrow>
                         Inr (s\<lparr>web_research_results := w,
                                sources_gathered := sources_gathered s @ urls\<rparr>))
               else Inr (s\<lparr>web_research_results := w\<rparr>)))"

text \<open>
  The prompt input joins \<open>str(result)\<close> over \<open>web_research_results\<close> before the
  model is called, so a value that cannot be iterated raises first.
\<close>

definition update_summary :: "pyexc + string \<Rightarrow> research_state \<Rightarrow> pyexc + research_state" where
  "update_summary reply s =
     (case py_iter (web_research_results s) of
        Inl e \<Rightarrow> Inl e
      | Inr _ \<Rightarrow>
          (case reply of
             Inl e \<Rightarrow> Inl e
           | Inr content \<Rightarrow>
               Inr (s\<lparr>running_summary := content, web_research_results := PList []\<rparr>)))"

definition reflect_and_identify_gaps ::
  "(string \<Rightarrow> pyval option) \<Rightarrow> pyexc + string \<Rightarrow> research_state \<Rightarrow> pyexc + research_state" where
  "reflect_and_identify_gaps loads reply s =
     (case reply of
        Inl e \<Rightarrow> Inl e
      | Inr content \<Rightarrow>
          (case json_field loads content ''follow_up_query'' of
             Inr q \<Rightarrow>
               Inr (s\<lparr>search_query := q,
                      research_loop_count := research_loop_count s + 1\<rparr>)
           | Inl e \<Rightarrow>
               if e = JSONDecodeError \<or> e = KeyError
               then Inr (s\<lparr>search_query := PStr (''latest developments in '' @ research_topic s),
                           research_loop_count := research_loop_count s + 1\<rparr>)
               else Inl e))"

definition should_continue_research :: "research_state \<Rightarrow> bool" where
  "should_continue_research s = (research_loop_count s < max_iterations s)"

datatype research_node =
  Dr_initialize | Dr_generate_query | Dr_search_web | Dr_update_summary | Dr_reflect

text \<open>The nodes as \<open>add_node\<close> registers them, each with the answers of its step.\<close>

fun research_node_fn :: "env \<Rightarrow> research_node \<Rightarrow> nat \<Rightarrow> research_state \<Rightarrow> pyexc + research_state" where
  "research_node_fn E Dr_initialize t s = dr_initialize_state s"
| "research_node_fn E Dr_generate_query t s = dr_generate_search_query (json_loads E) (llm E t 0) s"
| "research_node_fn E Dr_search_web t s = search_web (search_tool E t 0) s"
| "research_node_fn E Dr_update_summary t s = update_summary (llm E t 0) s"
| "research_node_fn E Dr_reflect t s = reflect_and_identify_gaps (json_loads E) (llm E t 0) s"

text \<open>
  \<open>ResearchState\<close>, the state class of this graph, inherits two fields that
  \<open>BaseState\<close> declares with the reducer \<open>operator.add\<close>:
  \<open>web_research_results\<close> and \<open>sources_gathered\<close>. The executor does not
  replace such a field by what the node returns: it adds what the node returns to the
  value the field had when the node was called. Every other field is replaced.
  \<open>operator.add\<close> joins two lists and two strings and adds numbers; any other
  pair of operands raises \<open>TypeError\<close>.
\<close>

fun py_num :: "pyval \<Rightarrow> int option" where
  "py_num (PInt i) = Some i"
| "py_num (PBool b) = Some (if b then 1 else 0)"
| "py_num v = None"

fun py_add :: "pyval \<Rightarrow> pyval \<Rightarrow> pyexc + pyval" where
  "py_add (PList xs) (PList ys) = Inr (PList (xs @ ys))"
| "py_add (PStr a) (PStr b) = Inr (PStr (a @ b))"
| "py_add v w =
     (case (py_num v, py_num w) of
        (Some i, Some j) \<Rightarrow> Inr (PInt (i + j))
      | _ \<Rightarrow> Inl TypeError)"

text \<open>The write of a returned state \<open>r\<close> over the state \<open>old\<close> the node was called with.\<close>

definition research_write :: "research_state \<Rightarrow> research_state \<Rightarrow> pyexc + research_state" where
  "research_write old r =
     (case py_add (web_research_results old) (web_research_results r) of
        Inl e \<Rightarrow> Inl e
      | Inr w \<Rightarrow>
          Inr (r\<lparr>web_research_results := w,
                 sources_gathered := sources_gathered old @ sources_gathered r\<rparr>))"

text \<open>One step of the executor on this graph: the call of the node, then the write.\<close>

definition research_step :: "env \<Rightarrow> research_node \<Rightarrow> nat \<Rightarrow> research_state \<Rightarrow> pyexc + research_state" where
  "research_step E n t s =
     (case research_node_fn E n t s of
        Inl e \<Rightarrow> Inl e
      | Inr r \<Rightarrow> research_write s r)"

text \<open>
  The edges as \<open>add_edge\<close> and \<open>add_conditional_edges\<close> declare them: after
  \<open>reflect\<close>, \<open>True\<close> leads to \<open>search_web\<close> and \<open>False\<close> to
  \<open>update_summary\<close>.
\<close>

fun research_succ :: "research_node \<Rightarrow> research_state \<Rightarrow> research_node option" where
  "research_succ Dr_initialize s = Some Dr_generate_query"
| "research_succ Dr_generate_query s = Some Dr_search_web"
| "research_succ Dr_search_web s = Some Dr_update_summary"
| "research_succ Dr_update_summary s = Some Dr_reflect"
| "research_succ Dr_reflect s =
     (if should_continue_research s then Some Dr_search_web else Some Dr_update_summary)"

definition research_run :: "env \<Rightarrow> nat \<Rightarrow> research_state \<Rightarrow> (research_node, research_state) run" where
  "research_run E fuel s = run_graph (research_step E) research_succ fuel 0 Dr_initialize s"

text \<open>
  An environment in which nothing goes wrong: the model answers with text that is not
  JSON, and every search returns the empty result set.
\<close>

definition quiet_env :: env where
  "quiet_env =
     \<lparr>llm = (\<lambda>t i. Inr ''summary''),
      search_tool = (\<lambda>t i. Inr (PDict [(''results'', PList [])])),
      json_loads = (\<lambda>c. None),
      py_str = (\<lambda>v. ''''),
      today = ''2025-03-04'',
      tool_name = ''duckduckgo''\<rparr>"

definition research_input :: "string \<Rightarrow> int \<Rightarrow> research_state" where
  "research_input topic depth =
     \<lparr>search_query = PStr '''', web_research_results = PList [], sources_gathered = [],
      research_topic = topic, research_loop_count = 0, running_summary = '''',
      max_iterations = depth\<rparr>"

section \<open>The newsletter graph\<close>

definition default_categories :: "string list" where
  "default_categories =
     [''Big Tech & Startups'',
      ''Science & Futuristic Technology'',
      ''Programming, Design & Data Science'']"

text \<open>A string is false in a condition when it is \<open>None\<close> or empty.\<close>

definition falsy :: "string option \<Rightarrow> bool" where
  "falsy x = (x = None \<or> x = Some [])"

text \<open>An optional string in an f-string: \<open>None\<close> prints as its name.\<close>

fun opt_str :: "string option \<Rightarrow> string" where
  "opt_str None = ''None''"
| "opt_str (Some x) = x"

definition empty_results :: pyval where
  "empty_results = PDict [(''results'', PList [])]"

definition nl_initialize_state :: "env \<Rightarrow> newsletter_state \<Rightarrow> pyexc + newsletter_state" where
  "nl_initialize_state E s =
     (let s1 = (if falsy (date s) then s\<lparr>date := Some (today E)\<rparr> else s);
          s2 = (if categories s1 = [] then s1\<lparr>categories := default_categories\<rparr> else s1)
      in (case (if falsy (current_category s2)
                then (case categories s2 of
                        [] \<Rightarrow> Inl IndexError
                      | c # cs \<Rightarrow> Inr (s2\<lparr>current_category := Some c\<rparr>))
                else Inr s2) of
            Inl e \<Rightarrow> Inl e
          | Inr s3 \<Rightarrow>
              Inr (s3\<lparr>category_summaries := Map.empty,
                      newsletter_summary := '''',
                      sources_gathered := [],
                      search_query := PStr '''',
                      web_research_results := PList [],
                      search_tool_name := tool_name E\<rparr>)))"

text \<open>
  The whole body is inside \<open>try\<close>, and the handler catches every exception: a call
  of the model that raises and a reply that does not parse both end in the fallback.
\<close>

definition fallback_query :: "newsletter_state \<Rightarrow> string" where
  "fallback_query s = opt_str (current_category s) @ '' latest news '' @ opt_str (date s)"

definition nl_generate_search_query ::
  "(string \<Rightarrow> pyval option) \<Rightarrow> pyexc + string \<Rightarrow> newsletter_state \<Rightarrow> pyexc + newsletter_state" where
  "nl_generate_search_query loads reply s =
     (case reply of
        Inl e \<Rightarrow> Inr (s\<lparr>search_query := PStr (fallback_query s)\<rparr>)
      | Inr content \<Rightarrow>
          (case json_field loads content ''query'' of
             Inr q \<Rightarrow> Inr (s\<lparr>search_query := q\<rparr>)
           | Inl e \<Rightarrow> Inr (s\<lparr>search_query := PStr (fallback_query s)\<rparr>)))"

text \<open>
  The \<open>try\<close> block of a search, which \<open>search_news\<close> and the catch-up pass both
  contain: it either completes, or raises at a state that keeps the assignments made
  so far.
\<close>

datatype 's attempt = Raised pyexc 's | Completed 's

definition try_search :: "pyexc + pyval \<Rightarrow> newsletter_state \<Rightarrow> newsletter_state attempt" where
  "try_search found s =
     (case found of
        Inl e \<Rightarrow> Raised e s
      | Inr r \<Rightarrow>
          (case py_get r ''results'' (PList []) of
             Inl e \<Rightarrow> Raised e (s\<lparr>web_research_results := r\<rparr>)
           | Inr rs \<Rightarrow>
               (case py_len rs of
                  Inl e \<Rightarrow> Raised e (s\<lparr>web_research_results := r\<rparr>)
                | Inr n \<Rightarrow>
                    if is_dict_with r ''results''
                    then (case result_urls r of
                            Inl e \<Rightarrow> Raised e (s\<lparr>web_research_results := r\<rparr>)
                          | Inr urls \<Rightarrow>
                              Completed (s\<lparr>web_research_results := r,
                                           sources_gathered := sources_gathered s @ urls\<rparr>))
                    else Completed (s\<lparr>web_research_results := r\<rparr>))))"

definition search_news :: "pyexc + pyval \<Rightarrow> newsletter_state \<Rightarrow> pyexc + newsletter_state" where
  "search_news found s =
     (case try_search found s of
        Raised e s' \<Rightarrow> Inr (s'\<lparr>web_research_results := empty_results\<rparr>)
      | Completed s' \<Rightarrow> Inr s')"

text \<open>
  What the inner \<open>try\<close> of a summarization leaves under the current category: the
  parsed \<open>summaries\<close>, or the empty list when the reply does not parse or when the
  \<open>len\<close> in the progress message raises.
\<close>

definition parse_summaries :: "(string \<Rightarrow> pyval option) \<Rightarrow> string \<Rightarrow> pyval" where
  "parse_summaries loads content =
     (case json_field loads content ''summaries'' of
        Inl e \<Rightarrow> PList []
      | Inr v \<Rightarrow> (case py_len v of Inl e \<Rightarrow> PList [] | Inr n \<Rightarrow> v))"

definition summarize_category ::
  "(string \<Rightarrow> pyval option) \<Rightarrow> pyexc + string \<Rightarrow> newsletter_state \<Rightarrow> pyexc + newsletter_state" where
  "summarize_category loads reply s =
     (case reply of
        Inl e \<Rightarrow> Inl e
      | Inr content \<Rightarrow>
          Inr (s\<lparr>category_summaries :=
                   (category_summaries s)(current_category s \<mapsto> parse_summaries loads content)\<rparr>))"

fun fill_missing :: "string list \<Rightarrow> newsletter_state \<Rightarrow> newsletter_state" where
  "fill_missing [] s = s"
| "fill_missing (c # cs) s =
     fill_missing cs
       (if category_summaries s (Some c) = None
        then s\<lparr>category_summaries := (category_summaries s)(Some c \<mapsto> PList [])\<rparr>
        else s)"

definition newline :: string where
  "newline = [CHR 0x0A]"

text \<open>The emoji and the header are written as their UTF-8 bytes.\<close>

definition category_emojis :: "string \<rightharpoonup> string" where
  "category_emojis =
     map_of
       [(''Big Tech & Startups'', [CHR 0xF0, CHR 0x9F, CHR 0x93, CHR 0xB1]),
        (''Science & Futuristic Technology'', [CHR 0xF0, CHR 0x9F, CHR 0x9A, CHR 0x80]),
        (''Programming, Design & Data Science'', [CHR 0xF0, CHR 0x9F, CHR 0x92, CHR 0xBB])]"

definition header :: string where
  "header =
     [CHR 0xF0, CHR 0x9F, CHR 0x8F, CHR 0x97, CHR 0xEF, CHR 0xB8, CHR 0x8F]
       @ '' Builder'' @ [CHR 0x27] @ ''s News ''"

definition article_text :: "(pyval \<Rightarrow> string) \<Rightarrow> pyval \<Rightarrow> pyexc + string" where
  "article_text str a =
     (case py_getitem a ''title'' of
        Inl e \<Rightarrow> Inl e
      | Inr ti \<Rightarrow>
          (case py_getitem a ''summary'' of
             Inl e \<Rightarrow> Inl e
           | Inr su \<Rightarrow>
               (case py_getitem a ''url'' of
                  Inl e \<Rightarrow> Inl e
                | Inr u \<Rightarrow>
                    Inr (str ti @ newline @ newline @ str su @ newline
                           @ ''Read more: '' @ str u @ newline @ newline))))"

definition section_text ::
  "(pyval \<Rightarrow> string) \<Rightarrow> (string option \<rightharpoonup> pyval) \<Rightarrow> string \<Rightarrow> pyexc + string" where
  "section_text str sums c =
     (case py_iter (case sums (Some c) of None \<Rightarrow> PList [] | Some v \<Rightarrow> v) of
        Inl e \<Rightarrow> Inl e
      | Inr arts \<Rightarrow>
          (case collect (map (article_text str) arts) of
             Inl e \<Rightarrow> Inl e
           | Inr ts \<Rightarrow>
               Inr ((case category_emojis c of None \<Rightarrow> '''' | Some m \<Rightarrow> m)
                      @ newline @ c @ newline @ concat ts)))"

definition generate_newsletter :: "(pyval \<Rightarrow> string) \<Rightarrow> newsletter_state \<Rightarrow> pyexc + newsletter_state" where
  "generate_newsletter str s =
     (case collect (map (section_text str (category_summaries (fill_missing (categories s) s)))
                        (categories s)) of
        Inl e \<Rightarrow> Inl e
      | Inr secs \<Rightarrow>
          Inr ((fill_missing (categories s) s)
                 \<lparr>newsletter_summary :=
                    header @ opt_str (date s) @ newline @ newline @ concat secs\<rparr>))"

text \<open>
  The handler of \<open>update_category\<close> catches every exception and leaves the state as it
  is; the only statement of the \<open>try\<close> that can raise is the \<open>index\<close> call.
\<close>

definition update_category :: "newsletter_state \<Rightarrow> pyexc + newsletter_state" where
  "update_category s =
     (case list_index (map Some (categories s)) (current_category s) of
        Inl e \<Rightarrow> Inr s
      | Inr current_index \<Rightarrow>
          if current_index + 1 < length (categories s)
          then Inr (s\<lparr>current_category := Some (categories s ! (current_index + 1)),
                      search_query := PStr '''',
                      web_research_results := PList []\<rparr>)
          else Inr s)"

definition processed_categories :: "newsletter_state \<Rightarrow> nat" where
  "processed_categories s =
     length (filter (\<lambda>cat. category_summaries s (Some cat) \<noteq> None) (categories s))"

definition max_normal_processing :: "newsletter_state \<Rightarrow> nat" where
  "max_normal_processing s = min (length (categories s)) 2"

definition should_process_next_category :: "newsletter_state \<Rightarrow> bool" where
  "should_process_next_category s =
     (if processed_categories s \<ge> max_normal_processing s then False
      else (case list_index (map Some (categories s)) (current_category s) of
              Inl e \<Rightarrow> False
            | Inr current_index \<Rightarrow> current_index + 1 < length (categories s)))"

definition end_workflow :: "newsletter_state \<Rightarrow> pyexc + newsletter_state" where
  "end_workflow s = Inr s"

text \<open>
  One round of the catch-up loop, for category \<open>c\<close>, with the \<open>i\<close>-th answers of
  step \<open>t\<close>. The outer handler records the empty list for the category.
\<close>

definition catchup_failed :: "newsletter_state \<Rightarrow> newsletter_state" where
  "catchup_failed s =
     s\<lparr>web_research_results := empty_results,
       category_summaries := (category_summaries s)(current_category s \<mapsto> PList [])\<rparr>"

definition process_category :: "env \<Rightarrow> nat \<Rightarrow> nat \<Rightarrow> string \<Rightarrow> newsletter_state \<Rightarrow> newsletter_state" where
  "process_category E t i c s =
     (case try_search (search_tool E t i)
             (s\<lparr>current_category := Some c,
                search_query := PStr (c @ '' latest news '' @ opt_str (date s))\<rparr>) of
        Raised e s' \<Rightarrow> catchup_failed s'
      | Completed s' \<Rightarrow>
          (case llm E t i of
             Inl e \<Rightarrow> catchup_failed s'
           | Inr content \<Rightarrow>
               s'\<lparr>category_summaries :=
                    (category_summaries s')
                      (current_category s' \<mapsto> parse_summaries (json_loads E) content)\<rparr>))"

fun process_loop :: "env \<Rightarrow> nat \<Rightarrow> nat \<Rightarrow> string list \<Rightarrow> newsletter_state \<Rightarrow> newsletter_state" where
  "process_loop E t i [] s = s"
| "process_loop E t i (c # cs) s = process_loop E t (Suc i) cs (process_category E t i c s)"

definition unprocessed_categories :: "newsletter_state \<Rightarrow> string list" where
  "unprocessed_categories s =
     filter (\<lambda>cat. category_summaries s (Some cat) = None) (categories s)"

definition process_remaining_categories :: "env \<Rightarrow> nat \<Rightarrow> newsletter_state \<Rightarrow> pyexc + newsletter_state" where
  "process_remaining_categories E t s =
     (if unprocessed_categories s \<noteq> []
      then Inr (process_loop E t 0 (unprocessed_categories s) s)
      else Inr s)"

datatype newsletter_node =
    Nl_initialize
  | Nl_generate_query
  | Nl_search
  | Nl_summarize
  | Nl_update_category
  | Nl_generate_newsletter
  | Nl_end
  | Nl_process_remaining_categories

fun newsletter_node_fn :: "env \<Rightarrow> newsletter_node \<Rightarrow> nat \<Rightarrow> newsletter_state \<Rightarrow> pyexc + newsletter_state" where
  "newsletter_node_fn E Nl_initialize t s = nl_initialize_state E s"
| "newsletter_node_fn E Nl_generate_query t s = nl_generate_search_query (json_loads E) (llm E t 0) s"
| "newsletter_node_fn E Nl_search t s = search_news (search_tool E t 0) s"
| "newsletter_node_fn E Nl_summarize t s = summarize_category (json_loads E) (llm E t 0) s"
| "newsletter_node_fn E Nl_update_category t s = update_category s"
| "newsletter_node_fn E Nl_generate_newsletter t s = generate_newsletter (py_str E) s"
| "newsletter_node_fn E Nl_end t s = end_workflow s"
| "newsletter_node_fn E Nl_process_remaining_categories t s = process_remaining_categories E t s"

fun newsletter_succ :: "newsletter_node \<Rightarrow> newsletter_state \<Rightarrow> newsletter_node option" where
  "newsletter_succ Nl_initialize s = Some Nl_generate_query"
| "newsletter_succ Nl_generate_query s = Some Nl_search"
| "newsletter_succ Nl_search s = Some Nl_summarize"
| "newsletter_succ Nl_summarize s = Some Nl_update_category"
| "newsletter_succ Nl_update_category s =
     (if should_process_next_category s then Some Nl_generate_query
      else Some Nl_process_remaining_categories)"
| "newsletter_succ Nl_process_remaining_categories s = Some Nl_generate_newsletter"
| "newsletter_succ Nl_generate_newsletter s = Some Nl_end"
| "newsletter_succ Nl_end s = None"

definition newsletter_run :: "env \<Rightarrow> nat \<Rightarrow> newsletter_state \<Rightarrow> (newsletter_node, newsletter_state) run" where
  "newsletter_run E fuel s = run_graph (newsletter_node_fn E) newsletter_succ fuel 0 Nl_initialize s"

text \<open>
  An input state: the caller's category list, date and current category, the other
  fields at the defaults of the class.
\<close>

definition newsletter_input :: "string list \<Rightarrow> string \<Rightarrow> string option \<Rightarrow> newsletter_state" where
  "newsletter_input cats d cur =
     \<lparr>search_query = PStr '''', web_research_results = PList [], sources_gathered = [],
      date = Some d, categories = cats, current_category = cur,
      search_tool_name = ''duckduckgo'', category_summaries = Map.empty,
      newsletter_summary = ''''\<rparr>"

section \<open>Sample inputs and the predicates of the proofs\<close>

text \<open>An environment whose search tool always finds one page.\<close>

definition hit_env :: env where
  "hit_env =
     quiet_env\<lparr>search_tool :=
       (\<lambda>t i. Inr (PDict [(''results'',
           PList [PDict [(''title'', PStr ''T''), (''url'', PStr ''http://a''),
                         (''content'', PStr ''c'')]])]))\<rparr>"


text \<open>
  The state after the first summarization of a run whose caller named a current
  category that is not in the category list.
\<close>

definition stray_state :: newsletter_state where
  "stray_state =
     (newsletter_input [''A'', ''B''] ''2025-03-04'' (Some ''Z''))
       \<lparr>category_summaries := [Some ''Z'' \<mapsto> PList []]\<rparr>"

text \<open>A state in which every category has its summaries.\<close>

definition settled_state :: newsletter_state where
  "settled_state =
     (newsletter_input [''A'', ''B''] ''2025-03-04'' (Some ''B''))
       \<lparr>category_summaries := [Some ''A'' \<mapsto> PList [], Some ''B'' \<mapsto> PList []]\<rparr>"

text \<open>An input that arrives with a source already in it.\<close>

definition stale_newsletter_input :: newsletter_state where
  "stale_newsletter_input =
     (newsletter_input [''A''] ''2025-03-04'' (Some ''A''))
       \<lparr>sources_gathered := [PStr ''http://old'']\<rparr>"

definition stale_research_input :: research_state where
  "stale_research_input = (research_input ''X'' 1)\<lparr>sources_gathered := [PStr ''http://old'']\<rparr>"

text \<open>
  The summaries have no key outside the category list, and the current category is in
  the list.
\<close>

definition keys_ok :: "newsletter_state \<Rightarrow> bool" where
  "keys_ok s =
     (dom (category_summaries s) \<subseteq> Some ` set (categories s) \<and>
      current_category s \<in> Some ` set (categories s))"

text \<open>Every category is a key of the summaries.\<close>

definition complete :: "newsletter_state \<Rightarrow> bool" where
  "complete s = (Some ` set (categories s) \<subseteq> dom (category_summaries s))"

text \<open>The state a run ended in or stands at, when it has not failed.\<close>

fun run_state :: "('n, 's) run \<Rightarrow> 's option" where
  "run_state (Finished s) = Some s"
| "run_state (Running n s) = Some s"
| "run_state (Failed e) = None"

fun finished :: "('n, 's) run \<Rightarrow> bool" where
  "finished (Finished s) = True"
| "finished (Running n s) = False"
| "finished (Failed e) = False"

text \<open>A run that has ended, by finishing or by failing.\<close>

fun ended :: "('n, 's) run \<Rightarrow> bool" where
  "ended (Finished s) = True"
| "ended (Failed e) = True"
| "ended (Running n s) = False"

section \<open>Lemmas on the helpers and on the executor\<close>

lemmas nl_defs = newsletter_run_def newsletter_input_def quiet_env_def nl_initialize_state_def
  nl_generate_search_query_def search_news_def try_search_def summarize_category_def
  parse_summaries_def json_field_def update_category_def should_process_next_category_def
  processed_categories_def max_normal_processing_def process_remaining_categories_def
  unprocessed_categories_def process_category_def catchup_failed_def generate_newsletter_def
  section_text_def article_text_def end_workflow_def falsy_def result_urls_def empty_results_def
  fallback_query_def

lemma list_index_Inl: "(\<exists>e. list_index xs x = Inl e) \<longleftrightarrow> x \<notin> set xs"
  by (induction xs) (auto split: sum.splits)

lemma list_index_Inr: "list_index xs x = Inr i \<Longrightarrow> i < length xs \<and> xs ! i = x"
  by (induction xs arbitrary: i) (auto split: sum.splits if_splits)

lemma list_index_butlast:
  "list_index xs x = Inr i \<Longrightarrow> (i + 1 < length xs) = (x \<in> set (butlast xs))"
proof (induction xs arbitrary: i)
  case Nil
  then show ?case by simp
next
  case (Cons y ys)
  show ?case
  proof (cases "y = x")
    case True
    then have "i = 0" using Cons.prems by simp
    then show ?thesis using True by (cases ys) auto
  next
    case False
    then obtain j where j: "list_index ys x = Inr j" "i = Suc j"
      using Cons.prems by (auto split: sum.splits)
    then have "ys \<noteq> []" by auto
    then show ?thesis using Cons.IH[OF j(1)] j(2) False by auto
  qed
qed

lemma distinct_last_butlast:
  assumes "distinct xs" "x \<in> set xs"
  shows "(x \<notin> set (butlast xs)) = (x = last xs)"
proof -
  have ne: "xs \<noteq> []" using assms by auto
  then have xs: "butlast xs @ [last xs] = xs" by simp
  have "distinct (butlast xs @ [last xs])" using assms xs by simp
  then have l: "last xs \<notin> set (butlast xs)" by simp
  have "set (butlast xs @ [last xs]) = set xs" using xs by simp
  then have "set xs = insert (last xs) (set (butlast xs))" by simp
  then show ?thesis using assms l by auto
qed

text \<open>A graph in which every node has a successor never finishes.\<close>

lemma run_graph_no_exit:
  assumes "\<And>n s. succ n s \<noteq> None"
  shows "run_graph f succ fuel t n s \<noteq> Finished s'"
proof (induction fuel arbitrary: t n s)
  case 0
  show ?case by simp
next
  case (Suc fuel)
  show ?case
  proof (cases "f n t s")
    case (Inl e)
    then show ?thesis by simp
  next
    case (Inr s1)
    obtain n1 where "succ n s1 = Some n1" using assms[of n s1] by auto
    then show ?thesis using Inr Suc by simp
  qed
qed

text \<open>
  An invariant that every step carries to the successor node, and that gives \<open>Q\<close>
  at a node without successor, gives \<open>Q\<close> of the final state.
\<close>

lemma run_graph_invariant:
  assumes step: "\<And>n t s s'. I n s \<Longrightarrow> f n t s = Inr s' \<Longrightarrow>
                   (case succ n s' of None \<Rightarrow> Q s' | Some n' \<Rightarrow> I n' s')"
    and "I n s" and "run_graph f succ fuel t n s = Finished sf"
  shows "Q sf"
  using assms(2,3)
proof (induction fuel arbitrary: t n s)
  case 0
  then show ?case by simp
next
  case (Suc fuel)
  show ?case
  proof (cases "f n t s")
    case (Inl e)
    then show ?thesis using Suc.prems by simp
  next
    case (Inr s1)
    note s1 = step[OF Suc.prems(1) Inr]
    show ?thesis
    proof (cases "succ n s1")
      case None
      then show ?thesis using s1 Inr Suc.prems by simp
    next
      case (Some n1)
      then show ?thesis using s1 Inr Suc.prems Suc.IH[of n1 s1 "Suc t"] by simp
    qed
  qed
qed

subsection \<open>The research graph\<close>

lemma research_succ_some: "research_succ n s \<noteq> None"
  by (cases n) simp_all

lemma quiet_node_ok:
  assumes "web_research_results s = PList xs"
  shows "\<exists>s' ys. research_step quiet_env n t s = Inr s' \<and> web_research_results s' = PList ys"
proof (cases n)
  case Dr_initialize
  then show ?thesis using assms
    by (simp add: research_step_def research_write_def dr_initialize_state_def)
next
  case Dr_generate_query
  then show ?thesis using assms
    by (simp add: research_step_def research_write_def quiet_env_def
        dr_generate_search_query_def json_field_def)
next
  case Dr_search_web
  then show ?thesis using assms
    by (simp add: research_step_def research_write_def quiet_env_def search_web_def
        result_urls_def)
next
  case Dr_update_summary
  then show ?thesis using assms
    by (simp add: research_step_def research_write_def quiet_env_def update_summary_def)
next
  case Dr_reflect
  then show ?thesis using assms
    by (simp add: research_step_def research_write_def quiet_env_def
        reflect_and_identify_gaps_def json_field_def)
qed

lemma quiet_run_running:
  assumes "web_research_results s = PList xs"
  shows "\<exists>n' s'. run_graph (research_step quiet_env) research_succ fuel t n s = Running n' s'"
  using assms
proof (induction fuel arbitrary: t n s xs)
  case 0
  show ?case by simp
next
  case (Suc fuel)
  from quiet_node_ok[OF Suc.prems] obtain s1 ys where
    s1: "research_step quiet_env n t s = Inr s1" "web_research_results s1 = PList ys"
    by blast
  obtain n1 where n1: "research_succ n s1 = Some n1"
    using research_succ_some[of n s1] by auto
  show ?case using s1 n1 Suc.IH[OF s1(2)] by simp
qed

text \<open>The write adds to the sources, whatever the node returned.\<close>

lemma research_step_sources:
  assumes "research_step E n t s = Inr s'"
  shows "\<exists>ys. sources_gathered s' = sources_gathered s @ ys"
  using assms by (auto simp: research_step_def research_write_def split: sum.splits)




subsection \<open>What each newsletter node leaves unchanged\<close>

lemma try_search_frame:
  "try_search found s = r \<Longrightarrow>
    (case r of Raised e s' \<Rightarrow> s' | Completed s' \<Rightarrow> s') = s1 \<Longrightarrow>
    categories s1 = categories s \<and> current_category s1 = current_category s \<and>
    category_summaries s1 = category_summaries s \<and> date s1 = date s \<and>
    (\<exists>ys. sources_gathered s1 = sources_gathered s @ ys)"
  by (auto simp: try_search_def split: sum.splits if_splits)

lemma search_news_frame:
  "search_news found s = Inr s' \<Longrightarrow>
    categories s' = categories s \<and> current_category s' = current_category s \<and>
    category_summaries s' = category_summaries s \<and>
    (\<exists>ys. sources_gathered s' = sources_gathered s @ ys)"
  unfolding search_news_def
  by (cases "try_search found s") (use try_search_frame[of found s] in \<open>auto\<close>)

lemma search_news_total:
  "\<exists>s'. search_news found s = Inr s' \<and> categories s' = categories s \<and>
        current_category s' = current_category s \<and> category_summaries s' = category_summaries s"
proof -
  have "\<exists>s'. search_news found s = Inr s'"
    by (simp add: search_news_def split: attempt.splits)
  then obtain s' where "search_news found s = Inr s'" by blast
  then show ?thesis using search_news_frame[of found s s'] by simp
qed

lemma nl_generate_frame:
  "nl_generate_search_query loads reply s = Inr s' \<Longrightarrow>
    categories s' = categories s \<and> current_category s' = current_category s \<and>
    category_summaries s' = category_summaries s \<and> sources_gathered s' = sources_gathered s"
  by (auto simp: nl_generate_search_query_def split: sum.splits)

lemma nl_generate_total:
  "\<exists>s'. nl_generate_search_query loads reply s = Inr s' \<and> categories s' = categories s \<and>
        current_category s' = current_category s \<and> category_summaries s' = category_summaries s"
  by (auto simp: nl_generate_search_query_def split: sum.splits)

lemma summarize_frame:
  "summarize_category loads reply s = Inr s' \<Longrightarrow>
    categories s' = categories s \<and> current_category s' = current_category s \<and>
    dom (category_summaries s') = insert (current_category s) (dom (category_summaries s)) \<and>
    sources_gathered s' = sources_gathered s"
  by (auto simp: summarize_category_def split: sum.splits)

lemma summarize_total:
  "summarize_category loads (Inr c) s = Inr s' \<Longrightarrow> categories s' = categories s \<and>
        current_category s' = current_category s \<and>
        category_summaries s' = (category_summaries s)(current_category s \<mapsto> parse_summaries loads c)"
  by (auto simp: summarize_category_def)

lemma update_category_keeps:
  "update_category s = Inr s' \<Longrightarrow>
    categories s' = categories s \<and> category_summaries s' = category_summaries s \<and>
    sources_gathered s' = sources_gathered s \<and>
    (current_category s' = current_category s \<or> current_category s' \<in> Some ` set (categories s))"
  by (auto simp: update_category_def split: sum.splits if_splits)

lemma update_category_total:
  "\<exists>s'. update_category s = Inr s' \<and> categories s' = categories s \<and>
        category_summaries s' = category_summaries s \<and>
        current_category s' =
          (case list_index (map Some (categories s)) (current_category s) of
             Inl e \<Rightarrow> current_category s
           | Inr i \<Rightarrow> if i + 1 < length (categories s) then Some (categories s ! (i + 1))
                      else current_category s)"
  by (auto simp: update_category_def split: sum.splits)

lemma process_category_frame:
  "categories (process_category E t i c s) = categories s \<and>
   current_category (process_category E t i c s) = Some c \<and>
   dom (category_summaries (process_category E t i c s)) = insert (Some c) (dom (category_summaries s)) \<and>
   (\<exists>ys. sources_gathered (process_category E t i c s) = sources_gathered s @ ys)"
proof -
  let ?s0 = "s\<lparr>current_category := Some c,
                search_query := PStr (c @ '' latest news '' @ opt_str (date s))\<rparr>"
  show ?thesis
  proof (cases "try_search (search_tool E t i) ?s0")
    case (Raised e s')
    from try_search_frame[OF Raised, of s'] show ?thesis
      using Raised by (auto simp: process_category_def catchup_failed_def)
  next
    case (Completed s')
    from try_search_frame[OF Completed, of s'] show ?thesis
      using Completed by (auto simp: process_category_def catchup_failed_def split: sum.splits)
  qed
qed

lemma process_loop_frame:
  "categories (process_loop E t i cs s) = categories s \<and>
   dom (category_summaries (process_loop E t i cs s)) = Some ` set cs \<union> dom (category_summaries s) \<and>
   (cs \<noteq> [] \<longrightarrow> current_category (process_loop E t i cs s) = Some (last cs)) \<and>
   (cs = [] \<longrightarrow> process_loop E t i cs s = s) \<and>
   (\<exists>ys. sources_gathered (process_loop E t i cs s) = sources_gathered s @ ys)"
proof (induction cs arbitrary: i s)
  case Nil
  show ?case by simp
next
  case (Cons c cs)
  note pc = process_category_frame[of E t i c s]
  note ih = Cons.IH[of "Suc i" "process_category E t i c s"]
  show ?case
  proof (cases "cs = []")
    case True
    then show ?thesis using pc by auto
  next
    case False
    then show ?thesis using pc ih by auto
  qed
qed

lemma fill_missing_frame:
  "categories (fill_missing cs s) = categories s \<and>
   current_category (fill_missing cs s) = current_category s \<and>
   sources_gathered (fill_missing cs s) = sources_gathered s \<and>
   dom (category_summaries (fill_missing cs s)) = Some ` set cs \<union> dom (category_summaries s)"
  by (induction cs arbitrary: s) auto

lemma generate_newsletter_frame:
  "generate_newsletter str s = Inr s' \<Longrightarrow>
    categories s' = categories s \<and> current_category s' = current_category s \<and>
    dom (category_summaries s') = Some ` set (categories s) \<union> dom (category_summaries s) \<and>
    sources_gathered s' = sources_gathered s"
proof -
  assume a: "generate_newsletter str s = Inr s'"
  then obtain secs where "s' = (fill_missing (categories s) s)
      \<lparr>newsletter_summary := header @ opt_str (date s) @ newline @ newline @ concat secs\<rparr>"
    by (auto simp: generate_newsletter_def split: sum.splits)
  then show ?thesis using fill_missing_frame[of "categories s" s] by simp
qed

lemma process_remaining_frame:
  assumes "process_remaining_categories E t s = Inr s'"
  shows "categories s' = categories s \<and>
    dom (category_summaries s') = Some ` set (categories s) \<union> dom (category_summaries s) \<and>
    (current_category s' = current_category s \<or> current_category s' \<in> Some ` set (categories s)) \<and>
    (\<exists>ys. sources_gathered s' = sources_gathered s @ ys)"
proof -
  let ?u = "unprocessed_categories s"
  have sub: "set ?u \<subseteq> set (categories s)" by (auto simp: unprocessed_categories_def)
  have un: "Some ` set ?u \<union> dom (category_summaries s) = Some ` set (categories s) \<union> dom (category_summaries s)"
    by (auto simp: unprocessed_categories_def)
  show ?thesis
  proof (cases "?u = []")
    case True
    then have "s' = s" using assms by (simp add: process_remaining_categories_def)
    then show ?thesis using un True by simp
  next
    case False
    then have s': "s' = process_loop E t 0 ?u s"
      using assms by (simp add: process_remaining_categories_def)
    have "last ?u \<in> set (categories s)" using False sub last_in_set by blast
    then show ?thesis using process_loop_frame[of E t 0 ?u s] False un
      unfolding s' by simp
  qed
qed

lemma nl_initialize_keys:
  assumes "nl_initialize_state E s = Inr s1"
  shows "categories s1 = (if categories s = [] then default_categories else categories s) \<and>
         category_summaries s1 = Map.empty \<and> sources_gathered s1 = [] \<and>
         categories s1 \<noteq> [] \<and>
         current_category s1 =
           (if falsy (current_category s) then Some (hd (categories s1)) else current_category s)"
  using assms
  by (auto simp: nl_initialize_state_def Let_def default_categories_def split: if_splits list.splits)

lemma distinct_default_categories: "distinct default_categories"
  by (simp add: default_categories_def)

subsection \<open>Invariants of a newsletter run\<close>

lemma newsletter_succ_not_init: "newsletter_succ n s \<noteq> Some Nl_initialize"
  by (cases n) simp_all

lemma node_keys_ok:
  assumes "n \<noteq> Nl_initialize" and "newsletter_node_fn E n t s = Inr s'" and "keys_ok s"
  shows "keys_ok s' \<and> categories s' = categories s"
proof (cases n)
  case Nl_initialize
  then show ?thesis using assms by simp
next
  case Nl_generate_query
  then show ?thesis using assms nl_generate_frame[of "json_loads E" "llm E t 0" s s']
    by (simp add: keys_ok_def)
next
  case Nl_search
  then show ?thesis using assms search_news_frame[of "search_tool E t 0" s s']
    by (simp add: keys_ok_def)
next
  case Nl_summarize
  then show ?thesis using assms summarize_frame[of "json_loads E" "llm E t 0" s s']
    by (simp add: keys_ok_def)
next
  case Nl_update_category
  then show ?thesis using assms update_category_keeps[of s s']
    by (auto simp add: keys_ok_def)
next
  case Nl_generate_newsletter
  then show ?thesis using assms generate_newsletter_frame[of "py_str E" s s']
    by (simp add: keys_ok_def)
next
  case Nl_end
  then show ?thesis using assms by (simp add: end_workflow_def)
next
  case Nl_process_remaining_categories
  then show ?thesis using assms process_remaining_frame[of E t s s']
    by (auto simp add: keys_ok_def)
qed

lemma node_complete:
  assumes "newsletter_node_fn E Nl_generate_newsletter t s = Inr s'"
  shows "complete s'"
  using assms generate_newsletter_frame[of "py_str E" s s']
  by (simp add: complete_def)

lemma node_categories:
  assumes "n \<noteq> Nl_initialize" and "newsletter_node_fn E n t s = Inr s'"
  shows "categories s' = categories s"
proof (cases n)
  case Nl_initialize
  then show ?thesis using assms by simp
next
  case Nl_generate_query
  then show ?thesis using assms nl_generate_frame[of "json_loads E" "llm E t 0" s s'] by simp
next
  case Nl_search
  then show ?thesis using assms search_news_frame[of "search_tool E t 0" s s'] by simp
next
  case Nl_summarize
  then show ?thesis using assms summarize_frame[of "json_loads E" "llm E t 0" s s'] by simp
next
  case Nl_update_category
  then show ?thesis using assms update_category_keeps[of s s'] by simp
next
  case Nl_generate_newsletter
  then show ?thesis using assms generate_newsletter_frame[of "py_str E" s s'] by simp
next
  case Nl_end
  then show ?thesis using assms by (simp add: end_workflow_def)
next
  case Nl_process_remaining_categories
  then show ?thesis using assms process_remaining_frame[of E t s s'] by simp
qed

lemma newsletter_node_sources:
  assumes "n \<noteq> Nl_initialize" "newsletter_node_fn E n t s = Inr s'"
  shows "\<exists>ys. sources_gathered s' = sources_gathered s @ ys"
proof (cases n)
  case Nl_initialize
  then show ?thesis using assms by simp
next
  case Nl_generate_query
  then show ?thesis using assms nl_generate_frame[of "json_loads E" "llm E t 0" s s'] by simp
next
  case Nl_search
  then show ?thesis using assms search_news_frame[of "search_tool E t 0" s s'] by simp
next
  case Nl_summarize
  then show ?thesis using assms summarize_frame[of "json_loads E" "llm E t 0" s s'] by simp
next
  case Nl_update_category
  then show ?thesis using assms update_category_keeps[of s s'] by simp
next
  case Nl_generate_newsletter
  then show ?thesis using assms generate_newsletter_frame[of "py_str E" s s'] by simp
next
  case Nl_end
  then show ?thesis using assms by (simp add: end_workflow_def)
next
  case Nl_process_remaining_categories
  then show ?thesis using assms process_remaining_frame[of E t s s'] by simp
qed

lemma run_complete:
  assumes "run_graph (newsletter_node_fn E) newsletter_succ fuel t n s = Finished sf"
    and "n = Nl_end \<longrightarrow> complete s"
  shows "complete sf"
proof (rule run_graph_invariant[where I="\<lambda>n s. n = Nl_end \<longrightarrow> complete s" and Q=complete,
      OF _ assms(2) assms(1)])
  fix n t s s'
  assume I: "n = Nl_end \<longrightarrow> complete s" and f: "newsletter_node_fn E n t s = Inr s'"
  show "case newsletter_succ n s' of None \<Rightarrow> complete s' | Some n' \<Rightarrow> n' = Nl_end \<longrightarrow> complete s'"
  proof (cases n)
    case Nl_generate_newsletter
    then show ?thesis using node_complete[of E t s s'] f by simp
  next
    case Nl_end
    then show ?thesis using I f by (simp add: end_workflow_def)
  qed simp_all
qed

lemma run_keys_ok:
  assumes "run_graph (newsletter_node_fn E) newsletter_succ fuel t n s = Finished sf"
    and "n \<noteq> Nl_initialize" and "keys_ok s"
  shows "keys_ok sf"
proof (rule run_graph_invariant[where I="\<lambda>n s. n \<noteq> Nl_initialize \<and> keys_ok s" and Q=keys_ok,
      OF _ _ assms(1)])
  show "n \<noteq> Nl_initialize \<and> keys_ok s" using assms by simp
next
  fix n t s s'
  assume I: "n \<noteq> Nl_initialize \<and> keys_ok s" and f: "newsletter_node_fn E n t s = Inr s'"
  then have k: "keys_ok s'" using node_keys_ok[of n E t s s'] by simp
  show "case newsletter_succ n s' of None \<Rightarrow> keys_ok s' | Some n' \<Rightarrow> n' \<noteq> Nl_initialize \<and> keys_ok s'"
    using k newsletter_succ_not_init[of n s'] by (auto split: option.splits)
qed

lemma run_categories:
  assumes "run_graph (newsletter_node_fn E) newsletter_succ fuel t n s = Finished sf"
    and "n \<noteq> Nl_initialize"
  shows "categories sf = categories s"
proof (rule run_graph_invariant[where I="\<lambda>n u. n \<noteq> Nl_initialize \<and> categories u = categories s"
      and Q="\<lambda>u. categories u = categories s", OF _ _ assms(1)])
  show "n \<noteq> Nl_initialize \<and> categories s = categories s" using assms by simp
next
  fix n t u u'
  assume I: "n \<noteq> Nl_initialize \<and> categories u = categories s"
    and f: "newsletter_node_fn E n t u = Inr u'"
  then have k: "categories u' = categories s" using node_categories[of n E t u u'] by simp
  show "case newsletter_succ n u' of None \<Rightarrow> categories u' = categories s
        | Some n' \<Rightarrow> n' \<noteq> Nl_initialize \<and> categories u' = categories s"
    using k newsletter_succ_not_init[of n u'] by (auto split: option.splits)
qed

lemma newsletter_run_unfold:
  assumes "newsletter_run E fuel s = Finished sf"
  shows "\<exists>fuel' s1. fuel = Suc fuel' \<and> nl_initialize_state E s = Inr s1 \<and>
    run_graph (newsletter_node_fn E) newsletter_succ fuel' (Suc 0) Nl_generate_query s1 = Finished sf"
proof -
  obtain fuel' where fu: "fuel = Suc fuel'"
    using assms by (cases fuel) (simp_all add: newsletter_run_def)
  obtain s1 where s1: "nl_initialize_state E s = Inr s1"
    using assms fu by (cases "nl_initialize_state E s") (simp_all add: newsletter_run_def)
  have "run_graph (newsletter_node_fn E) newsletter_succ fuel' (Suc 0) Nl_generate_query s1 = Finished sf"
    using assms fu s1 by (simp add: newsletter_run_def)
  then show ?thesis using fu s1 by blast
qed

subsection \<open>The predicate after \<open>update_category\<close>\<close>

lemma should_process_char:
  "should_process_next_category s =
     (processed_categories s < min (length (categories s)) 2 \<and>
      (\<exists>c \<in> set (butlast (categories s)). current_category s = Some c))"
proof (cases "list_index (map Some (categories s)) (current_category s)")
  case (Inl e)
  then have "current_category s \<notin> set (map Some (categories s))"
    using list_index_Inl by fastforce
  then have "\<not> (\<exists>c \<in> set (butlast (categories s)). current_category s = Some c)"
    by (auto dest: in_set_butlastD)
  then show ?thesis using Inl
    by (simp add: should_process_next_category_def max_normal_processing_def)
next
  case (Inr i)
  from list_index_butlast[OF Inr]
  have "(i + 1 < length (categories s)) = (current_category s \<in> set (butlast (map Some (categories s))))"
    by simp
  also have "\<dots> = (\<exists>c \<in> set (butlast (categories s)). current_category s = Some c)"
    by (auto simp: map_butlast[symmetric])
  finally show ?thesis using Inr
    by (auto simp add: should_process_next_category_def max_normal_processing_def)
qed

text \<open>
  The bounded phase on three categories, under every environment, when the run starts
  at the first category (the caller names it, or names none): nine steps lead to the
  catch-up node with the first two categories summarized, unless the model raises in one
  of the two summarizations.
\<close>

lemma bounded_phase_three:
  assumes "falsy c0 \<or> c0 = Some ''A''"
  shows "case newsletter_run E 9 (newsletter_input [''A'', ''B'', ''C''] d c0) of
     Running n s \<Rightarrow> n = Nl_process_remaining_categories \<and>
                    dom (category_summaries s) = {Some ''A'', Some ''B''} \<and>
                    processed_categories s = 2
   | Failed e \<Rightarrow> llm E 3 0 = Inl e \<or> llm E 7 0 = Inl e
   | Finished s \<Rightarrow> False"
proof -
  let ?s0 = "newsletter_input [''A'', ''B'', ''C''] d c0"
  let ?L = "json_loads E"
  have "\<exists>s1. nl_initialize_state E ?s0 = Inr s1 \<and> categories s1 = [''A'', ''B'', ''C''] \<and>
     current_category s1 = Some ''A'' \<and> category_summaries s1 = Map.empty"
    using assms
    by (cases "d = []") (auto simp add: nl_initialize_state_def newsletter_input_def falsy_def Let_def)
  then obtain s1 where s1: "nl_initialize_state E ?s0 = Inr s1" "categories s1 = [''A'', ''B'', ''C'']"
     "current_category s1 = Some ''A''" "category_summaries s1 = Map.empty"
    by blast
  obtain s2 where s2: "nl_generate_search_query ?L (llm E 1 0) s1 = Inr s2"
    "categories s2 = [''A'', ''B'', ''C'']" "current_category s2 = Some ''A''"
    "category_summaries s2 = Map.empty"
    using nl_generate_total[of ?L "llm E 1 0" s1] s1 by auto
  obtain s3 where s3: "search_news (search_tool E 2 0) s2 = Inr s3"
    "categories s3 = [''A'', ''B'', ''C'']" "current_category s3 = Some ''A''"
    "category_summaries s3 = Map.empty"
    using search_news_total[of "search_tool E 2 0" s2] s2 by auto
  show ?thesis
  proof (cases "llm E 3 0")
    case (Inl e)
    then show ?thesis using s1 s2 s3
      by (simp add: newsletter_run_def eval_nat_numeral summarize_category_def)
  next
    case (Inr c4)
    obtain s4 where s4': "summarize_category ?L (Inr c4) s3 = Inr s4"
      by (simp add: summarize_category_def)
    note f4 = summarize_total[OF s4']
    have s4: "summarize_category ?L (llm E 3 0) s3 = Inr s4"
      "categories s4 = [''A'', ''B'', ''C'']" "current_category s4 = Some ''A''"
      "category_summaries s4 = [Some ''A'' \<mapsto> parse_summaries ?L c4]"
      using s4' f4 s3 Inr by simp_all
    obtain s5 where s5: "update_category s4 = Inr s5"
      "categories s5 = [''A'', ''B'', ''C'']" "current_category s5 = Some ''B''"
      "category_summaries s5 = [Some ''A'' \<mapsto> parse_summaries ?L c4]"
      using update_category_total[of s4] s4 by auto
    have p5: "should_process_next_category s5" using s5
      by (simp add: should_process_next_category_def processed_categories_def max_normal_processing_def)
    obtain s6 where s6: "nl_generate_search_query ?L (llm E 5 0) s5 = Inr s6"
      "categories s6 = [''A'', ''B'', ''C'']" "current_category s6 = Some ''B''"
      "category_summaries s6 = [Some ''A'' \<mapsto> parse_summaries ?L c4]"
      using nl_generate_total[of ?L "llm E 5 0" s5] s5 by auto
    obtain s7 where s7: "search_news (search_tool E 6 0) s6 = Inr s7"
      "categories s7 = [''A'', ''B'', ''C'']" "current_category s7 = Some ''B''"
      "category_summaries s7 = [Some ''A'' \<mapsto> parse_summaries ?L c4]"
      using search_news_total[of "search_tool E 6 0" s6] s6 by auto
    show ?thesis
    proof (cases "llm E 7 0")
      case (Inl e)
      then show ?thesis using s1 s2 s3 s4 s5 p5 s6 s7
        by (simp add: newsletter_run_def eval_nat_numeral summarize_category_def)
    next
      case c8: (Inr c8)
      obtain s8 where s8': "summarize_category ?L (Inr c8) s7 = Inr s8"
        by (simp add: summarize_category_def)
      note f8 = summarize_total[OF s8']
      have s8: "summarize_category ?L (llm E 7 0) s7 = Inr s8"
        "categories s8 = [''A'', ''B'', ''C'']" "current_category s8 = Some ''B''"
        "category_summaries s8 =
           [Some ''A'' \<mapsto> parse_summaries ?L c4, Some ''B'' \<mapsto> parse_summaries ?L c8]"
        using s8' f8 s7 c8 by simp_all
      obtain s9 where s9: "update_category s8 = Inr s9"
        "categories s9 = [''A'', ''B'', ''C'']" "current_category s9 = Some ''C''"
        "category_summaries s9 =
           [Some ''A'' \<mapsto> parse_summaries ?L c4, Some ''B'' \<mapsto> parse_summaries ?L c8]"
        using update_category_total[of s8] s8 by auto
      have p9: "\<not> should_process_next_category s9" "processed_categories s9 = 2" using s9
        by (simp_all add: should_process_next_category_def processed_categories_def
            max_normal_processing_def)
      have "newsletter_run E 9 ?s0 = Running Nl_process_remaining_categories s9"
        using s1 s2 s3 s4 s5 p5 s6 s7 s8 s9 p9
        by (simp add: newsletter_run_def eval_nat_numeral)
      moreover have "dom (category_summaries s9) = {Some ''A'', Some ''B''}" using s9 by auto
      ultimately show ?thesis using p9 by simp
    qed
  qed
qed

text \<open>
  The bounded phase on the same categories when the caller names another current
  category \<open>c\<close>: \<open>initialize\<close> keeps it, and after one cycle the predicate
  stops, with \<open>c\<close> as the only key of the summaries.
\<close>

lemma bounded_phase_single:
  assumes "c \<noteq> []" "c \<noteq> ''A''"
  shows "case newsletter_run E 5 (newsletter_input [''A'', ''B'', ''C''] d (Some c)) of
     Running n s \<Rightarrow> n = Nl_process_remaining_categories \<and>
                    dom (category_summaries s) = {Some c} \<and>
                    processed_categories s \<le> 1
   | Failed e \<Rightarrow> llm E 3 0 = Inl e
   | Finished s \<Rightarrow> False"
proof -
  let ?s0 = "newsletter_input [''A'', ''B'', ''C''] d (Some c)"
  let ?L = "json_loads E"
  have "\<exists>s1. nl_initialize_state E ?s0 = Inr s1 \<and> categories s1 = [''A'', ''B'', ''C''] \<and>
     current_category s1 = Some c \<and> category_summaries s1 = Map.empty"
    using assms(1)
    by (cases "d = []") (auto simp add: nl_initialize_state_def newsletter_input_def falsy_def Let_def)
  then obtain s1 where s1: "nl_initialize_state E ?s0 = Inr s1" "categories s1 = [''A'', ''B'', ''C'']"
     "current_category s1 = Some c" "category_summaries s1 = Map.empty"
    by blast
  obtain s2 where s2: "nl_generate_search_query ?L (llm E 1 0) s1 = Inr s2"
    "categories s2 = [''A'', ''B'', ''C'']" "current_category s2 = Some c"
    "category_summaries s2 = Map.empty"
    using nl_generate_total[of ?L "llm E 1 0" s1] s1 by auto
  obtain s3 where s3: "search_news (search_tool E 2 0) s2 = Inr s3"
    "categories s3 = [''A'', ''B'', ''C'']" "current_category s3 = Some c"
    "category_summaries s3 = Map.empty"
    using search_news_total[of "search_tool E 2 0" s2] s2 by auto
  show ?thesis
  proof (cases "llm E 3 0")
    case (Inl e)
    then show ?thesis using s1 s2 s3
      by (simp add: newsletter_run_def eval_nat_numeral summarize_category_def)
  next
    case (Inr c4)
    obtain s4 where s4': "summarize_category ?L (Inr c4) s3 = Inr s4"
      by (simp add: summarize_category_def)
    note f4 = summarize_total[OF s4']
    have s4: "summarize_category ?L (llm E 3 0) s3 = Inr s4"
      "categories s4 = [''A'', ''B'', ''C'']" "current_category s4 = Some c"
      "category_summaries s4 = [Some c \<mapsto> parse_summaries ?L c4]"
      using s4' f4 s3 Inr by simp_all
    obtain s5 where s5: "update_category s4 = Inr s5"
      "categories s5 = [''A'', ''B'', ''C'']"
      "category_summaries s5 = [Some c \<mapsto> parse_summaries ?L c4]"
      "current_category s5 =
          (case list_index (map Some (categories s4)) (current_category s4) of
             Inl e \<Rightarrow> current_category s4
           | Inr i \<Rightarrow> if i + 1 < length (categories s4) then Some (categories s4 ! (i + 1))
                      else current_category s4)"
      using update_category_total[of s4] s4(2,4) by auto
    have cur: "current_category s5 \<noteq> Some ''A''" "current_category s5 \<noteq> Some ''B''"
      using s5(4) s4(2,3) assms(2) by (auto split: if_splits)
    have p5: "\<not> should_process_next_category s5"
      using cur s5(2) by (simp add: should_process_char)
    have n5: "processed_categories s5 \<le> 1"
      using s5(2,3) by (auto simp add: processed_categories_def)
    have "newsletter_run E 5 ?s0 = Running Nl_process_remaining_categories s5"
      using s1 s2 s3 s4 s5(1) p5
      by (simp add: newsletter_run_def eval_nat_numeral)
    moreover have "dom (category_summaries s5) = {Some c}" using s5(3) by auto
    ultimately show ?thesis using n5 by simp
  qed
qed

subsection \<open>Every newsletter run ends\<close>

lemma filter_two_distinct:
  assumes "a \<in> set xs" "b \<in> set xs" "a \<noteq> b" "P a" "P b"
  shows "2 \<le> length (filter P xs)"
proof -
  have "{a, b} \<subseteq> set (filter P xs)" using assms by simp
  then have "card {a, b} \<le> card (set (filter P xs))" by (simp add: card_mono)
  also have "\<dots> \<le> length (filter P xs)" by (rule card_length)
  finally show ?thesis using assms(3) by simp
qed

lemma filter_two_adjacent:
  "i + 1 < length xs \<Longrightarrow> P (xs ! i) \<Longrightarrow> P (xs ! (i + 1)) \<Longrightarrow> 2 \<le> length (filter P xs)"
proof (induction xs arbitrary: i)
  case Nil
  then show ?case by simp
next
  case (Cons x xs)
  show ?case
  proof (cases i)
    case 0
    then have "P x" "xs \<noteq> []" "P (xs ! 0)" using Cons.prems by auto
    then have "hd xs \<in> set (filter P xs)" by (cases xs) auto
    then have "filter P xs \<noteq> []" by (metis empty_iff list.set(1))
    then have "1 \<le> length (filter P xs)" by (cases "filter P xs") auto
    then show ?thesis using \<open>P x\<close> by simp
  next
    case (Suc j)
    then have "2 \<le> length (filter P xs)" using Cons.IH[of j] Cons.prems by simp
    then show ?thesis by simp
  qed
qed

text \<open>The pure core: after a second cycle the predicate says stop.\<close>

lemma second_cycle_stops:
  assumes c4: "categories s4 = categories s" "category_summaries s4 (current_category s) \<noteq> None"
    and u4: "current_category s4 =
          (case list_index (map Some (categories s)) (current_category s) of
             Inl e \<Rightarrow> current_category s
           | Inr i \<Rightarrow> if i + 1 < length (categories s) then Some (categories s ! (i + 1))
                      else current_category s)"
    and go: "should_process_next_category s4"
    and c8: "categories s8 = categories s"
      "\<And>k. category_summaries s4 k \<noteq> None \<Longrightarrow> category_summaries s8 k \<noteq> None"
      "category_summaries s8 (current_category s4) \<noteq> None"
  shows "\<not> should_process_next_category s8"
proof -
  let ?cs = "categories s"
  let ?P4 = "\<lambda>c. category_summaries s4 (Some c) \<noteq> None"
  let ?P8 = "\<lambda>c. category_summaries s8 (Some c) \<noteq> None"
  from go have lt: "length (filter ?P4 ?cs) < min (length ?cs) 2"
    and ex: "\<exists>c \<in> set (butlast ?cs). current_category s4 = Some c"
    using c4(1) by (simp_all add: should_process_char processed_categories_def)
  then obtain c1 where c1: "c1 \<in> set (butlast ?cs)" "current_category s4 = Some c1" by blast
  have c1in: "c1 \<in> set ?cs" using c1(1) by (rule in_set_butlastD)
  have "2 \<le> length (filter ?P8 ?cs)"
  proof (cases "list_index (map Some ?cs) (current_category s)")
    case (Inl e)
    then have "current_category s \<notin> set (map Some ?cs)" using list_index_Inl by fastforce
    moreover have "current_category s4 = current_category s" using u4 Inl by simp
    ultimately have False using c1 c1in by (metis image_eqI set_map)
    then show ?thesis ..
  next
    case (Inr i)
    from list_index_Inr[OF Inr] have i: "i < length ?cs" "current_category s = Some (?cs ! i)"
      by auto
    have p0: "?P4 (?cs ! i)" using c4(2) i(2) by simp
    show ?thesis
    proof (cases "i + 1 < length ?cs")
      case True
      then have c1eq: "c1 = ?cs ! (i + 1)" using u4 Inr c1(2) by simp
      have "?cs ! (i + 1) \<noteq> ?cs ! i"
      proof
        assume eq: "?cs ! (i + 1) = ?cs ! i"
        then have "?P4 (?cs ! (i + 1))" using p0 by simp
        then have "2 \<le> length (filter ?P4 ?cs)"
          using filter_two_adjacent[of i ?cs ?P4] True p0 by simp
        then show False using lt by simp
      qed
      moreover have "?P8 (?cs ! i)" using p0 c8(2) by blast
      moreover have "?P8 (?cs ! (i + 1))" using c8(3) c1(2) c1eq by simp
      moreover have "?cs ! i \<in> set ?cs" "?cs ! (i + 1) \<in> set ?cs" using i True by simp_all
      ultimately show ?thesis
        using filter_two_distinct[of "?cs ! i" ?cs "?cs ! (i + 1)" ?P8] by simp
    next
      case False
      then have "current_category s4 = current_category s" using u4 Inr by simp
      then have "current_category s = Some c1" using c1(2) by simp
      then have "current_category s \<in> Some ` set (butlast ?cs)" using c1(1) by blast
      then have "current_category s \<in> set (butlast (map Some ?cs))"
        by (simp add: map_butlast[symmetric])
      then have "i + 1 < length (map Some ?cs)" using list_index_butlast[OF Inr] by simp
      then show ?thesis using False by simp
    qed
  qed
  then show ?thesis using c8(1)
    by (simp add: should_process_char processed_categories_def)
qed

text \<open>
  The last three nodes, and one cycle of the bounded phase: it fails when the model raises
  in the summarization, and otherwise hands over to the node the predicate selects.
\<close>

lemma nl_tail:
  "ended (run_graph (newsletter_node_fn E) newsletter_succ (Suc (Suc (Suc k))) t
            Nl_process_remaining_categories s)"
proof -
  obtain s1 where s1: "process_remaining_categories E t s = Inr s1"
    by (cases "unprocessed_categories s = []") (simp_all add: process_remaining_categories_def)
  show ?thesis
  proof (cases "generate_newsletter (py_str E) s1")
    case (Inl e)
    then show ?thesis using s1 by simp
  next
    case (Inr s2)
    then show ?thesis using s1 by (simp add: end_workflow_def)
  qed
qed

lemma nl_cycle_fails:
  assumes "llm E (Suc (Suc t)) 0 = Inl e"
  shows "run_graph (newsletter_node_fn E) newsletter_succ (Suc (Suc (Suc k))) t Nl_generate_query s
           = Failed e"
proof -
  obtain s1 where s1: "nl_generate_search_query (json_loads E) (llm E t 0) s = Inr s1"
    using nl_generate_total[of "json_loads E" "llm E t 0" s] by blast
  obtain s2 where s2: "search_news (search_tool E (Suc t) 0) s1 = Inr s2"
    using search_news_total[of "search_tool E (Suc t) 0" s1] by blast
  show ?thesis using s1 s2 assms by (simp add: summarize_category_def)
qed

lemma nl_cycle_runs:
  assumes "llm E (Suc (Suc t)) 0 = Inr c"
  shows "\<exists>s4. run_graph (newsletter_node_fn E) newsletter_succ (Suc (Suc (Suc (Suc k)))) t
                 Nl_generate_query s
               = run_graph (newsletter_node_fn E) newsletter_succ k (Suc (Suc (Suc (Suc t))))
                   (if should_process_next_category s4 then Nl_generate_query
                    else Nl_process_remaining_categories) s4 \<and>
          categories s4 = categories s \<and>
          category_summaries s4 =
            (category_summaries s)(current_category s \<mapsto> parse_summaries (json_loads E) c) \<and>
          current_category s4 =
            (case list_index (map Some (categories s)) (current_category s) of
               Inl e \<Rightarrow> current_category s
             | Inr i \<Rightarrow> if i + 1 < length (categories s) then Some (categories s ! (i + 1))
                        else current_category s)"
proof -
  obtain s1 where s1: "nl_generate_search_query (json_loads E) (llm E t 0) s = Inr s1"
    "categories s1 = categories s" "current_category s1 = current_category s"
    "category_summaries s1 = category_summaries s"
    using nl_generate_total[of "json_loads E" "llm E t 0" s] by blast
  obtain s2 where s2: "search_news (search_tool E (Suc t) 0) s1 = Inr s2"
    "categories s2 = categories s1" "current_category s2 = current_category s1"
    "category_summaries s2 = category_summaries s1"
    using search_news_total[of "search_tool E (Suc t) 0" s1] by blast
  obtain s3 where s3': "summarize_category (json_loads E) (Inr c) s2 = Inr s3"
    by (simp add: summarize_category_def)
  note f3 = summarize_total[OF s3']
  obtain s4 where s4: "update_category s3 = Inr s4" "categories s4 = categories s3"
    "category_summaries s4 = category_summaries s3"
    "current_category s4 =
          (case list_index (map Some (categories s3)) (current_category s3) of
             Inl e \<Rightarrow> current_category s3
           | Inr i \<Rightarrow> if i + 1 < length (categories s3) then Some (categories s3 ! (i + 1))
                      else current_category s3)"
    using update_category_total[of s3] by blast
  have "run_graph (newsletter_node_fn E) newsletter_succ (Suc (Suc (Suc (Suc k)))) t
                 Nl_generate_query s
               = run_graph (newsletter_node_fn E) newsletter_succ k (Suc (Suc (Suc (Suc t))))
                   (if should_process_next_category s4 then Nl_generate_query
                    else Nl_process_remaining_categories) s4"
    using s1(1) s2(1) s3' s4(1) assms by simp
  moreover have "categories s4 = categories s" using s4 f3 s2 s1 by simp
  moreover have "category_summaries s4 =
            (category_summaries s)(current_category s \<mapsto> parse_summaries (json_loads E) c)"
    using s4 f3 s2 s1 by simp
  moreover have "current_category s4 =
            (case list_index (map Some (categories s)) (current_category s) of
               Inl e \<Rightarrow> current_category s
             | Inr i \<Rightarrow> if i + 1 < length (categories s) then Some (categories s ! (i + 1))
                        else current_category s)"
  proof -
    have c3: "categories s3 = categories s" and k3: "current_category s3 = current_category s"
      using f3 s2 s1 by simp_all
    show ?thesis using s4(4) by (simp only: c3 k3)
  qed
  ultimately show ?thesis by blast
qed

lemma newsletter_run_ends:
  assumes "12 \<le> fuel"
  shows "ended (newsletter_run E fuel s)"
proof -
  let ?run = "run_graph (newsletter_node_fn E) newsletter_succ"
  obtain k where k: "fuel = Suc (Suc (Suc (Suc (Suc (Suc (Suc (Suc (Suc (Suc (Suc (Suc k)))))))))))"
  proof -
    obtain j where "fuel = 12 + j" using assms by (auto simp: le_iff_add)
    then have "fuel = Suc (Suc (Suc (Suc (Suc (Suc (Suc (Suc (Suc (Suc (Suc (Suc j)))))))))))"
      by (simp add: eval_nat_numeral)
    then show ?thesis using that by blast
  qed
  show ?thesis
  proof (cases "nl_initialize_state E s")
    case (Inl e)
    then show ?thesis using k by (simp add: newsletter_run_def)
  next
    case (Inr s1)
    then have r1: "newsletter_run E fuel s =
        ?run (Suc (Suc (Suc (Suc (Suc (Suc (Suc (Suc (Suc (Suc (Suc k))))))))))) (Suc 0) Nl_generate_query s1"
      using k by (simp add: newsletter_run_def)
    show ?thesis
    proof (cases "llm E (Suc (Suc (Suc 0))) 0")
      case (Inl e)
      then show ?thesis using r1 nl_cycle_fails[of E "Suc 0" e] by simp
    next
      case (Inr c)
      from nl_cycle_runs[OF Inr, of "Suc (Suc (Suc (Suc (Suc (Suc (Suc k))))))" s1]
      obtain s4 where s4:
        "?run (Suc (Suc (Suc (Suc (Suc (Suc (Suc (Suc (Suc (Suc (Suc k))))))))))) (Suc 0) Nl_generate_query s1
          = ?run (Suc (Suc (Suc (Suc (Suc (Suc (Suc k))))))) (Suc (Suc (Suc (Suc (Suc 0)))))
              (if should_process_next_category s4 then Nl_generate_query
               else Nl_process_remaining_categories) s4"
        "categories s4 = categories s1"
        "category_summaries s4 =
            (category_summaries s1)(current_category s1 \<mapsto> parse_summaries (json_loads E) c)"
        "current_category s4 =
            (case list_index (map Some (categories s1)) (current_category s1) of
               Inl e \<Rightarrow> current_category s1
             | Inr i \<Rightarrow> if i + 1 < length (categories s1) then Some (categories s1 ! (i + 1))
                        else current_category s1)"
        by blast
      show ?thesis
      proof (cases "should_process_next_category s4")
        case False
        then show ?thesis using r1 s4(1) nl_tail by simp
      next
        case True
        show ?thesis
        proof (cases "llm E (Suc (Suc (Suc (Suc (Suc (Suc (Suc 0))))))) 0")
          case (Inl e)
          then show ?thesis using r1 s4(1) True
              nl_cycle_fails[of E "Suc (Suc (Suc (Suc (Suc 0))))" e] by simp
        next
          case c': (Inr c')
          from nl_cycle_runs[OF c', of "Suc (Suc (Suc k))" s4]
          obtain s8 where s8:
            "?run (Suc (Suc (Suc (Suc (Suc (Suc (Suc k))))))) (Suc (Suc (Suc (Suc (Suc 0))))) Nl_generate_query s4
              = ?run (Suc (Suc (Suc k))) (Suc (Suc (Suc (Suc (Suc (Suc (Suc (Suc (Suc 0)))))))))
                  (if should_process_next_category s8 then Nl_generate_query
                   else Nl_process_remaining_categories) s8"
            "categories s8 = categories s4"
            "category_summaries s8 =
                (category_summaries s4)(current_category s4 \<mapsto> parse_summaries (json_loads E) c')"
            by blast
          have "\<not> should_process_next_category s8"
          proof (rule second_cycle_stops[of s4 s1 s8])
            show "categories s4 = categories s1" by (rule s4(2))
            show "category_summaries s4 (current_category s1) \<noteq> None" using s4(3) by simp
            show "current_category s4 =
              (case list_index (map Some (categories s1)) (current_category s1) of
                 Inl e \<Rightarrow> current_category s1
               | Inr i \<Rightarrow> if i + 1 < length (categories s1) then Some (categories s1 ! (i + 1))
                          else current_category s1)" by (rule s4(4))
            show "should_process_next_category s4" by (rule True)
            show "categories s8 = categories s1" using s8(2) s4(2) by simp
            show "\<And>k. category_summaries s4 k \<noteq> None \<Longrightarrow> category_summaries s8 k \<noteq> None"
              using s8(3) by simp
            show "category_summaries s8 (current_category s4) \<noteq> None" using s8(3) by simp
          qed
          then show ?thesis using r1 s4(1) True s8(1) nl_tail by simp
        qed
      qed
    qed
  qed
qed

section \<open>The claims\<close>

text \<open>
  C1. The claim: for every research state with \<open>max_iterations = N \<ge> 1\<close> the run
  terminates after exactly \<open>N\<close> cycles, with \<open>research_loop_count = N\<close>. The
  graph as declared has no node without successor: the \<open>False\<close> branch after
  \<open>reflect\<close> leads to \<open>update_summary\<close>, whose edge leads back to
  \<open>reflect\<close>. So no run of the research graph finishes, under any environment, from
  any state and with any fuel; and when no collaborator raises, the run is still running
  after every number of steps.
\<close>

theorem research_run_never_finishes:
  "research_run E fuel s \<noteq> Finished s' \<and>
   (\<exists>n' s''. research_run quiet_env fuel (research_input topic N) = Running n' s'')"
proof
  show "research_run E fuel s \<noteq> Finished s'"
    unfolding research_run_def by (rule run_graph_no_exit) (rule research_succ_some)
  show "\<exists>n' s''. research_run quiet_env fuel (research_input topic N) = Running n' s''"
    unfolding research_run_def
    by (rule quiet_run_running[where xs="[]"]) (simp add: research_input_def)
qed

theorem research_run_never_finishes_witness:
  "research_run quiet_env 100 (research_input ''X'' 3) \<noteq> Finished (research_input ''X'' 3) \<and>
   (\<exists>n' s''. research_run quiet_env 100 (research_input ''X'' 3) = Running n' s'')"
  using research_run_never_finishes[of quiet_env 100 "research_input ''X'' 3"
      "research_input ''X'' 3" "''X''" 3]
  by blast



text \<open>
  C3, as stated: after a full newsletter run the summaries have exactly as many keys as
  the category list has entries. A list that names a category twice gives one key for
  the two entries.
\<close>

theorem newsletter_keys_counterexample:
  "finished (newsletter_run quiet_env 12 (newsletter_input [''A'', ''A''] ''2025-03-04'' (Some ''A''))) \<and>
   map_option (card \<circ> dom \<circ> category_summaries)
     (run_state (newsletter_run quiet_env 12 (newsletter_input [''A'', ''A''] ''2025-03-04'' (Some ''A''))))
     = Some 1 \<and>
   map_option (length \<circ> categories)
     (run_state (newsletter_run quiet_env 12 (newsletter_input [''A'', ''A''] ''2025-03-04'' (Some ''A''))))
     = Some 2"
  by (simp add: nl_defs eval_nat_numeral)

text \<open>
  C3, amended: when a newsletter run finishes, the category list of the final state is
  the caller's list (the three default categories when the caller's list is empty), and
  every category of the list is a key of the summaries. When the caller's current
  category is empty or one of the categories, the keys are exactly the categories; and
  when the categories are also pairwise distinct, the number of keys is the length of
  the list. By \<open>newsletter_run_ends\<close> every run of twelve or more steps has ended:
  it has finished, or a node has raised.
\<close>

theorem newsletter_run_keys:
  assumes "newsletter_run E fuel s = Finished sf"
  shows "categories sf = (if categories s = [] then default_categories else categories s) \<and>
         Some ` set (categories sf) \<subseteq> dom (category_summaries sf) \<and>
         ((falsy (current_category s) \<or> current_category s \<in> Some ` set (categories s)) \<longrightarrow>
            dom (category_summaries sf) = Some ` set (categories sf) \<and>
            (distinct (categories s) \<longrightarrow> card (dom (category_summaries sf)) = length (categories sf)))"
proof -
  from newsletter_run_unfold[OF assms] obtain fuel' s1 where
    fu: "fuel = Suc fuel'" and s1: "nl_initialize_state E s = Inr s1"
    and run: "run_graph (newsletter_node_fn E) newsletter_succ fuel' (Suc 0) Nl_generate_query s1 = Finished sf"
    by blast
  note init = nl_initialize_keys[OF s1]
  have cats: "categories sf = categories s1" using run_categories[OF run] by simp
  have c1: "categories sf = (if categories s = [] then default_categories else categories s)"
    using cats init by simp
  have comp: "complete sf" using run_complete[OF run] by simp
  have c3: "dom (category_summaries sf) = Some ` set (categories sf) \<and>
            (distinct (categories s) \<longrightarrow> card (dom (category_summaries sf)) = length (categories sf))"
    if h: "falsy (current_category s) \<or> current_category s \<in> Some ` set (categories s)"
  proof -
    have "current_category s1 \<in> Some ` set (categories s1)"
    proof (cases "falsy (current_category s)")
      case True
      have "categories s1 \<noteq> []" using init by blast
      then have "hd (categories s1) \<in> set (categories s1)" by (rule hd_in_set)
      moreover have "current_category s1 = Some (hd (categories s1))" using init True by presburger
      ultimately show ?thesis by simp
    next
      case False
      then have "current_category s \<in> Some ` set (categories s)" using h by simp
      moreover then have "categories s \<noteq> []" by auto
      ultimately show ?thesis using init False by simp
    qed
    then have "keys_ok s1" using init by (simp add: keys_ok_def)
    then have "keys_ok sf" using run_keys_ok[OF run] by simp
    then have eq: "dom (category_summaries sf) = Some ` set (categories sf)"
      using comp by (auto simp: keys_ok_def complete_def)
    have "distinct (categories sf)" if "distinct (categories s)"
      using that c1 distinct_default_categories by simp
    then have "distinct (categories s) \<longrightarrow> card (Some ` set (categories sf)) = length (categories sf)"
      by (simp add: card_image distinct_card)
    then show ?thesis using eq by simp
  qed
  have c2: "Some ` set (categories sf) \<subseteq> dom (category_summaries sf)"
    using comp by (simp add: complete_def)
  show ?thesis using c1 c2 c3 by blast
qed

theorem newsletter_run_keys_witness:
  "\<exists>sf. newsletter_run quiet_env 12 (newsletter_input [''A'', ''B'', ''C''] ''2025-03-04'' (Some ''A''))
           = Finished sf \<and>
        categories sf = [''A'', ''B'', ''C''] \<and>
        dom (category_summaries sf) = Some ` set (categories sf) \<and>
        card (dom (category_summaries sf)) = 3"
proof -
  let ?s = "newsletter_input [''A'', ''B'', ''C''] ''2025-03-04'' (Some ''A'')"
  have "\<exists>sf. newsletter_run quiet_env 12 ?s = Finished sf"
    by (simp add: nl_defs eval_nat_numeral)
  then obtain sf where sf: "newsletter_run quiet_env 12 ?s = Finished sf" by blast
  have h1: "falsy (current_category ?s) \<or> current_category ?s \<in> Some ` set (categories ?s)"
    by (simp add: newsletter_input_def)
  have h2: "distinct (categories ?s)" by (simp add: newsletter_input_def)
  have h3: "(if categories ?s = [] then default_categories else categories ?s) = [''A'', ''B'', ''C'']"
    by (simp add: newsletter_input_def)
  from newsletter_run_keys[OF sf]
  have k1: "categories sf = (if categories ?s = [] then default_categories else categories ?s)"
    and k3: "dom (category_summaries sf) = Some ` set (categories sf)"
    and k4: "card (dom (category_summaries sf)) = length (categories sf)"
    using h1 h2 by blast+
  have "categories sf = [''A'', ''B'', ''C'']" using k1 h3 by (rule trans)
  then show ?thesis using sf k3 k4 by simp
qed

text \<open>
  C4, as stated: the predicate after \<open>update_category\<close> stops exactly when (a) the
  number of categories present in the summaries has reached \<open>min(total, 2)\<close> or (b)
  the current category is the last of the list; in particular, with the categories A,
  B, C exactly two categories are in the summaries when the bounded phase stops. In
  \<open>stray_state\<close> neither (a) nor (b) holds, and the predicate stops: the current
  category is not in the list, the \<open>index\<close> call raises, and the handler returns
  \<open>False\<close>. And when the caller of a run over A, B, C names B as current category,
  \<open>initialize\<close> keeps it, and the bounded phase stops after one cycle with the one
  key B in the summaries.
\<close>

theorem should_process_next_category_counterexample:
  "((\<not> should_process_next_category stray_state) \<noteq>
     (min (length (categories stray_state)) 2 \<le> processed_categories stray_state \<or>
      current_category stray_state = Some (last (categories stray_state)))) \<and>
   (\<exists>u. newsletter_run quiet_env 5 (newsletter_input [''A'', ''B'', ''C''] ''2025-03-04'' (Some ''B''))
           = Running Nl_process_remaining_categories u \<and>
        dom (category_summaries u) = {Some ''B''} \<and> processed_categories u = 1)"
  by (simp add: stray_state_def nl_defs eval_nat_numeral)

text \<open>
  C4, amended: the predicate stops exactly when (a) the number of entries of the category
  list that are keys of the summaries is at least \<open>min(total, 2)\<close>, or (b) the
  current category is not among the entries before the last one, that is, it is null,
  or not in the list, or its first occurrence is the last entry. When the categories
  are pairwise distinct and the current category is one of them, (b) says that the
  current category is the last of the list. With the categories A, B, C and any
  environment: when the caller's current category is null, empty or A, the bounded phase
  reaches the catch-up node with exactly the two keys A and B in the summaries, unless
  the model raises in one of the two summarizations; when the caller names any other
  current category \<open>c\<close>, the bounded phase reaches the catch-up node after one cycle
  with \<open>c\<close> as the only key, unless the model raises in the summarization.
\<close>

theorem should_process_next_category_stops:
  "(\<not> should_process_next_category s) =
     (min (length (categories s)) 2 \<le> processed_categories s \<or>
      current_category s \<notin> Some ` set (butlast (categories s))) \<and>
   (distinct (categories s) \<and> current_category s \<in> Some ` set (categories s) \<longrightarrow>
     (\<not> should_process_next_category s) =
       (min (length (categories s)) 2 \<le> processed_categories s \<or>
        current_category s = Some (last (categories s)))) \<and>
   (falsy c0 \<or> c0 = Some ''A'' \<longrightarrow>
     (case newsletter_run E 9 (newsletter_input [''A'', ''B'', ''C''] d c0) of
        Running n u \<Rightarrow> n = Nl_process_remaining_categories \<and>
                       dom (category_summaries u) = {Some ''A'', Some ''B''} \<and>
                       processed_categories u = 2
      | Failed e \<Rightarrow> llm E 3 0 = Inl e \<or> llm E 7 0 = Inl e
      | Finished u \<Rightarrow> False)) \<and>
   (c \<noteq> [] \<and> c \<noteq> ''A'' \<longrightarrow>
     (case newsletter_run E 5 (newsletter_input [''A'', ''B'', ''C''] d (Some c)) of
        Running n u \<Rightarrow> n = Nl_process_remaining_categories \<and>
                       dom (category_summaries u) = {Some c} \<and>
                       processed_categories u \<le> 1
      | Failed e \<Rightarrow> llm E 3 0 = Inl e
      | Finished u \<Rightarrow> False))"
proof (intro conjI)
  show "(\<not> should_process_next_category s) =
     (min (length (categories s)) 2 \<le> processed_categories s \<or>
      current_category s \<notin> Some ` set (butlast (categories s)))"
    by (auto simp add: should_process_char)
  show "distinct (categories s) \<and> current_category s \<in> Some ` set (categories s) \<longrightarrow>
     (\<not> should_process_next_category s) =
       (min (length (categories s)) 2 \<le> processed_categories s \<or>
        current_category s = Some (last (categories s)))"
  proof
    assume h: "distinct (categories s) \<and> current_category s \<in> Some ` set (categories s)"
    then obtain c where c: "current_category s = Some c" "c \<in> set (categories s)" by auto
    have "(c \<notin> set (butlast (categories s))) = (c = last (categories s))"
      using distinct_last_butlast[of "categories s" c] h c by simp
    then show "(\<not> should_process_next_category s) =
       (min (length (categories s)) 2 \<le> processed_categories s \<or>
        current_category s = Some (last (categories s)))"
      using c by (auto simp add: should_process_char)
  qed
  show "falsy c0 \<or> c0 = Some ''A'' \<longrightarrow>
     (case newsletter_run E 9 (newsletter_input [''A'', ''B'', ''C''] d c0) of
        Running n u \<Rightarrow> n = Nl_process_remaining_categories \<and>
                       dom (category_summaries u) = {Some ''A'', Some ''B''} \<and>
                       processed_categories u = 2
      | Failed e \<Rightarrow> llm E 3 0 = Inl e \<or> llm E 7 0 = Inl e
      | Finished u \<Rightarrow> False)"
    by (rule impI) (rule bounded_phase_three)
  show "c \<noteq> [] \<and> c \<noteq> ''A'' \<longrightarrow>
     (case newsletter_run E 5 (newsletter_input [''A'', ''B'', ''C''] d (Some c)) of
        Running n u \<Rightarrow> n = Nl_process_remaining_categories \<and>
                       dom (category_summaries u) = {Some c} \<and>
                       processed_categories u \<le> 1
      | Failed e \<Rightarrow> llm E 3 0 = Inl e
      | Finished u \<Rightarrow> False)"
    by (rule impI) (rule bounded_phase_single, simp_all)
qed

theorem should_process_next_category_stops_witness:
  "\<not> should_process_next_category settled_state \<and>
   distinct (categories settled_state) \<and>
   current_category settled_state = Some (last (categories settled_state)) \<and>
   (\<exists>u. newsletter_run quiet_env 9 (newsletter_input [''A'', ''B'', ''C''] ''2025-03-04'' (Some ''A''))
           = Running Nl_process_remaining_categories u \<and>
        dom (category_summaries u) = {Some ''A'', Some ''B''}) \<and>
   (\<exists>u. newsletter_run quiet_env 5 (newsletter_input [''A'', ''B'', ''C''] ''2025-03-04'' (Some ''C''))
           = Running Nl_process_remaining_categories u \<and>
        dom (category_summaries u) = {Some ''C''})"
proof -
  let ?R = "newsletter_run quiet_env 9 (newsletter_input [''A'', ''B'', ''C''] ''2025-03-04'' (Some ''A''))"
  let ?Q = "newsletter_run quiet_env 5 (newsletter_input [''A'', ''B'', ''C''] ''2025-03-04'' (Some ''C''))"
  note t = should_process_next_category_stops[of settled_state "Some ''A''" quiet_env
      "''2025-03-04''" "''C''"]
  have d: "distinct (categories settled_state)"
    "current_category settled_state \<in> Some ` set (categories settled_state)"
    "current_category settled_state = Some (last (categories settled_state))"
    by (simp_all add: settled_state_def newsletter_input_def)
  from t d have stop: "\<not> should_process_next_category settled_state" by blast
  from t have r: "case ?R of
      Running n u \<Rightarrow> n = Nl_process_remaining_categories \<and>
                     dom (category_summaries u) = {Some ''A'', Some ''B''} \<and>
                     processed_categories u = 2
    | Failed e \<Rightarrow> llm quiet_env 3 0 = Inl e \<or> llm quiet_env 7 0 = Inl e
    | Finished u \<Rightarrow> False" by blast
  have c: "''C'' \<noteq> [] \<and> ''C'' \<noteq> ''A''" by simp
  from t c have q: "case ?Q of
      Running n u \<Rightarrow> n = Nl_process_remaining_categories \<and>
                     dom (category_summaries u) = {Some ''C''} \<and>
                     processed_categories u \<le> 1
    | Failed e \<Rightarrow> llm quiet_env 3 0 = Inl e
    | Finished u \<Rightarrow> False" by blast
  have nine: "\<exists>u. ?R = Running Nl_process_remaining_categories u \<and>
        dom (category_summaries u) = {Some ''A'', Some ''B''}"
  proof (cases ?R)
    case (Finished u)
    then show ?thesis using r by simp
  next
    case (Failed e)
    then show ?thesis using r by (simp add: quiet_env_def)
  next
    case (Running n u)
    then show ?thesis using r by simp
  qed
  have five: "\<exists>u. ?Q = Running Nl_process_remaining_categories u \<and>
        dom (category_summaries u) = {Some ''C''}"
  proof (cases ?Q)
    case (Finished u)
    then show ?thesis using q by simp
  next
    case (Failed e)
    then show ?thesis using q by (simp add: quiet_env_def)
  next
    case (Running n u)
    then show ?thesis using q by simp
  qed
  show ?thesis using stop d nine five by blast
qed

text \<open>
  C5. Running \<open>process_remaining_categories\<close> on a state in which every category is
  a key of the summaries returns the state as it is, so the summaries are unchanged, and
  a second pass over the result, under any environment, returns the same again.
\<close>

theorem process_remaining_categories_noop:
  assumes "\<forall>c \<in> set (categories s). category_summaries s (Some c) \<noteq> None"
  shows "process_remaining_categories E t s = Inr s \<and>
         (case process_remaining_categories E t s of
            Inl e \<Rightarrow> Inl e
          | Inr s1 \<Rightarrow> process_remaining_categories E' t' s1) = process_remaining_categories E t s"
proof -
  have "unprocessed_categories s = []"
    using assms by (auto simp: unprocessed_categories_def filter_empty_conv)
  then have "process_remaining_categories E t s = Inr s"
    and "process_remaining_categories E' t' s = Inr s"
    by (simp_all add: process_remaining_categories_def)
  then show ?thesis by simp
qed

theorem process_remaining_categories_noop_witness:
  "category_summaries settled_state (Some ''A'') \<noteq> None \<and>
   category_summaries settled_state (Some ''B'') \<noteq> None \<and>
   categories settled_state = [''A'', ''B''] \<and>
   process_remaining_categories hit_env 5 settled_state = Inr settled_state"
proof -
  have h: "\<forall>c \<in> set (categories settled_state). category_summaries settled_state (Some c) \<noteq> None"
    by (simp add: settled_state_def newsletter_input_def)
  show ?thesis
    using process_remaining_categories_noop[OF h, of hit_env 5 hit_env 5]
    by (simp add: settled_state_def newsletter_input_def)
qed

text \<open>
  C6, as stated: no node, \<open>initialize\<close> included, makes \<open>sources_gathered\<close>
  shorter. The state class of the newsletter graph declares no reducer, and the
  \<open>initialize\<close> node of that graph assigns the empty list: an input that arrives with
  a source in it has none after the first step of the run.
\<close>

theorem sources_gathered_counterexample:
  "sources_gathered stale_newsletter_input = [PStr ''http://old''] \<and>
   map_sum id sources_gathered (nl_initialize_state quiet_env stale_newsletter_input) = Inr [] \<and>
   map_option sources_gathered (run_state (newsletter_run quiet_env 1 stale_newsletter_input)) = Some []"
  by (simp add: stale_newsletter_input_def nl_defs Let_def)

text \<open>
  C6, amended: in a run of the research graph every step, that of \<open>initialize\<close>
  included, leaves a state whose \<open>sources_gathered\<close> starts with the list the step
  began with, because the executor adds what the node returns to the list; in the
  newsletter graph every node other than \<open>initialize\<close> returns a state whose
  \<open>sources_gathered\<close> starts with the list it was called with. So the list is never
  shorter after such a step than before. The \<open>initialize\<close> node of the newsletter
  graph resets the list to empty.
\<close>

theorem sources_gathered_grows:
  "(research_step E n t s = Inr s' \<longrightarrow>
      length (sources_gathered s) \<le> length (sources_gathered s') \<and>
      take (length (sources_gathered s)) (sources_gathered s') = sources_gathered s) \<and>
   (m \<noteq> Nl_initialize \<and> newsletter_node_fn E m t u = Inr u' \<longrightarrow>
      length (sources_gathered u) \<le> length (sources_gathered u') \<and>
      take (length (sources_gathered u)) (sources_gathered u') = sources_gathered u) \<and>
   (newsletter_node_fn E Nl_initialize t u = Inr u' \<longrightarrow> sources_gathered u' = [])"
proof (intro conjI impI)
  assume "research_step E n t s = Inr s'"
  then obtain ys where ys: "sources_gathered s' = sources_gathered s @ ys"
    using research_step_sources[of E n t s s'] by blast
  show "length (sources_gathered s) \<le> length (sources_gathered s')" using ys by simp
  show "take (length (sources_gathered s)) (sources_gathered s') = sources_gathered s"
    using ys by simp
next
  assume "m \<noteq> Nl_initialize \<and> newsletter_node_fn E m t u = Inr u'"
  then obtain ys where ys: "sources_gathered u' = sources_gathered u @ ys"
    using newsletter_node_sources[of m E t u u'] by blast
  show "length (sources_gathered u) \<le> length (sources_gathered u')" using ys by simp
  show "take (length (sources_gathered u)) (sources_gathered u') = sources_gathered u"
    using ys by simp
next
  assume "newsletter_node_fn E Nl_initialize t u = Inr u'"
  then show "sources_gathered u' = []" using nl_initialize_keys[of E u u'] by simp
qed

theorem sources_gathered_grows_witness:
  "research_step hit_env Dr_initialize 2 stale_research_input = Inr stale_research_input \<and>
   sources_gathered stale_research_input = [PStr ''http://old''] \<and>
   newsletter_node_fn hit_env Nl_search 2 stale_newsletter_input =
     Inr (stale_newsletter_input
            \<lparr>web_research_results :=
               PDict [(''results'',
                 PList [PDict [(''title'', PStr ''T''), (''url'', PStr ''http://a''),
                               (''content'', PStr ''c'')]])],
             sources_gathered := [PStr ''http://old'', PStr ''http://a'']\<rparr>) \<and>
   length (sources_gathered stale_research_input) \<le> 1 \<and>
   length (sources_gathered stale_newsletter_input) \<le> 2 \<and>
   (\<exists>u'. newsletter_node_fn hit_env Nl_initialize 2 stale_newsletter_input = Inr u' \<and>
         sources_gathered u' = [])"
proof -
  let ?u' = "stale_newsletter_input
            \<lparr>web_research_results :=
               PDict [(''results'',
                 PList [PDict [(''title'', PStr ''T''), (''url'', PStr ''http://a''),
                               (''content'', PStr ''c'')]])],
             sources_gathered := [PStr ''http://old'', PStr ''http://a'']\<rparr>"
  have a: "research_step hit_env Dr_initialize 2 stale_research_input = Inr stale_research_input"
    by (simp add: research_step_def research_write_def dr_initialize_state_def
        stale_research_input_def research_input_def)
  have b: "newsletter_node_fn hit_env Nl_search 2 stale_newsletter_input = Inr ?u'"
    by (simp add: hit_env_def quiet_env_def search_news_def try_search_def
        stale_newsletter_input_def newsletter_input_def result_urls_def)
  have c: "sources_gathered stale_research_input = [PStr ''http://old'']"
    by (simp add: stale_research_input_def)
  obtain u0 where u0: "newsletter_node_fn hit_env Nl_initialize 2 stale_newsletter_input = Inr u0"
    by (simp add: stale_newsletter_input_def hit_env_def nl_defs Let_def)
  from sources_gathered_grows[of hit_env Dr_initialize 2 stale_research_input stale_research_input
      Nl_search stale_newsletter_input ?u'] a b
  have l: "length (sources_gathered stale_research_input) \<le> length (sources_gathered stale_research_input)"
    "length (sources_gathered stale_newsletter_input) \<le> length (sources_gathered ?u')"
    by simp_all
  from sources_gathered_grows[of hit_env Dr_initialize 2 stale_research_input stale_research_input
      Nl_search stale_newsletter_input u0] u0
  have "sources_gathered u0 = []" by blast
  then show ?thesis using a b c l u0 by simp
qed

text \<open>
  C7, as stated: after a reply that does not parse, the query is the topic (research)
  or the templated text (newsletter), and is never empty. The research state's topic
  may be the empty string, which is also the default of the field; the fallback then
  sets the empty query.
\<close>

theorem generate_query_counterexample:
  "dr_generate_search_query (json_loads quiet_env) (Inr ''not json'') (research_input '''' 3)
     = Inr ((research_input '''' 3)\<lparr>search_query := PStr ''''\<rparr>)"
  by (simp add: dr_generate_search_query_def json_field_def research_input_def quiet_env_def)

text \<open>
  C7, amended. Research graph: when the reply is not JSON, or is a JSON object without
  the key \<open>query\<close>, the node returns with \<open>search_query\<close> equal to the topic
  string, which is empty only when the topic is. Newsletter graph: when the call of the
  model raises, or the reply does not yield a \<open>query\<close> for any reason, the node
  returns with \<open>search_query\<close> equal to the current category, the text
  \<open>latest news\<close> and the date, a string that is never empty.
\<close>

theorem generate_query_fallback:
  "((loads content = None \<or>
     (\<exists>kvs. loads content = Some (PDict kvs) \<and> map_of kvs ''query'' = None)) \<longrightarrow>
      dr_generate_search_query loads (Inr content) s =
        Inr (s\<lparr>search_query := PStr (research_topic s)\<rparr>)) \<and>
   ((\<exists>e. reply = Inl e) \<or>
    (\<exists>c e. reply = Inr c \<and> json_field loads c ''query'' = Inl e) \<longrightarrow>
      nl_generate_search_query loads reply u =
        Inr (u\<lparr>search_query :=
               PStr (opt_str (current_category u) @ '' latest news '' @ opt_str (date u))\<rparr>) \<and>
      opt_str (current_category u) @ '' latest news '' @ opt_str (date u) \<noteq> '''')"
  by (auto simp: dr_generate_search_query_def nl_generate_search_query_def json_field_def
      fallback_query_def)

theorem generate_query_fallback_witness:
  "json_loads quiet_env ''not json'' = None \<and>
   dr_generate_search_query (json_loads quiet_env) (Inr ''not json'') (research_input ''X'' 3)
     = Inr ((research_input ''X'' 3)\<lparr>search_query := PStr ''X''\<rparr>) \<and>
   nl_generate_search_query (json_loads quiet_env) (Inl CollaboratorError) settled_state
     = Inr (settled_state\<lparr>search_query := PStr ''B latest news 2025-03-04''\<rparr>)"
proof -
  have h: "json_loads quiet_env ''not json'' = None" by (simp add: quiet_env_def)
  from generate_query_fallback[of "json_loads quiet_env" "''not json''" "research_input ''X'' 3"
      "Inl CollaboratorError" settled_state] h
  have "dr_generate_search_query (json_loads quiet_env) (Inr ''not json'') (research_input ''X'' 3)
     = Inr ((research_input ''X'' 3)\<lparr>search_query := PStr (research_topic (research_input ''X'' 3))\<rparr>)"
    and "nl_generate_search_query (json_loads quiet_env) (Inl CollaboratorError) settled_state
     = Inr (settled_state\<lparr>search_query :=
               PStr (opt_str (current_category settled_state) @ '' latest news ''
                     @ opt_str (date settled_state))\<rparr>)"
    by blast+
  then show ?thesis using h
    by (simp add: research_input_def settled_state_def newsletter_input_def)
qed

text \<open>
  C8, as stated: when the current category is not null and not in the category list, the
  run stops with a fatal error. A run whose caller names the current category Z for the
  list [A] finishes, with summaries for both Z and A.
\<close>

theorem stray_category_counterexample:
  "current_category (newsletter_input [''A''] ''2025-03-04'' (Some ''Z'')) = Some ''Z'' \<and>
   ''Z'' \<notin> set (categories (newsletter_input [''A''] ''2025-03-04'' (Some ''Z''))) \<and>
   finished (newsletter_run quiet_env 12 (newsletter_input [''A''] ''2025-03-04'' (Some ''Z''))) \<and>
   map_option (dom \<circ> category_summaries)
     (run_state (newsletter_run quiet_env 12 (newsletter_input [''A''] ''2025-03-04'' (Some ''Z''))))
     = Some {Some ''A'', Some ''Z''}"
  by (simp add: nl_defs eval_nat_numeral)

text \<open>
  C8, amended: when the current category is not in the category list,
  \<open>update_category\<close> catches the exception of the \<open>index\<close> call and returns the
  state unchanged, the predicate answers stop, and the run goes on to the catch-up node;
  no error reaches the caller from these steps.
\<close>

theorem update_category_stray:
  assumes "current_category s \<notin> Some ` set (categories s)"
  shows "update_category s = Inr s \<and> \<not> should_process_next_category s \<and>
         newsletter_succ Nl_update_category s = Some Nl_process_remaining_categories"
proof -
  obtain e where "list_index (map Some (categories s)) (current_category s) = Inl e"
    using assms list_index_Inl[of "map Some (categories s)" "current_category s"] by auto
  then show ?thesis
    by (simp add: update_category_def should_process_next_category_def)
qed

theorem update_category_stray_witness:
  "current_category stray_state = Some ''Z'' \<and> categories stray_state = [''A'', ''B''] \<and>
   update_category stray_state = Inr stray_state \<and>
   newsletter_succ Nl_update_category stray_state = Some Nl_process_remaining_categories"
proof -
  have h: "current_category stray_state \<notin> Some ` set (categories stray_state)"
    by (simp add: stray_state_def newsletter_input_def)
  show ?thesis using update_category_stray[OF h]
    by (simp add: stray_state_def newsletter_input_def)
qed

text \<open>
  C9. The claim: the search node of both graphs catches every failure of the search
  call. \<open>search_news\<close> returns a state whatever the search tool does; \<open>search_web\<close>
  has no handler, and an exception of the search tool leaves the node as it came.
\<close>

theorem search_web_propagates:
  "search_web (Inl e) s = Inl e \<and> (\<exists>u'. search_news found u = Inr u')"
  by (simp add: search_web_def search_news_def split: attempt.splits)

theorem search_web_propagates_witness:
  "research_node_fn (quiet_env\<lparr>search_tool := (\<lambda>t i. Inl CollaboratorError)\<rparr>) Dr_search_web 2
     (research_input ''X'' 3) = Inl CollaboratorError \<and>
   (\<exists>u'. newsletter_node_fn (quiet_env\<lparr>search_tool := (\<lambda>t i. Inl CollaboratorError)\<rparr>) Nl_search 2
            settled_state = Inr u')"
  using search_web_propagates[of CollaboratorError "research_input ''X'' 3"
      "Inl CollaboratorError" settled_state]
  by simp

text \<open>
  C10. \<open>update_category\<close> always returns a state, and that state differs from the one
  it was called with in \<open>current_category\<close>, \<open>search_query\<close> and
  \<open>web_research_results\<close> at most: the categories, the summaries, the sources, the
  date, the newsletter text and the name of the search tool are unchanged, whether a
  next category exists or not and whether the \<open>index\<close> call raises or not.
\<close>

theorem update_category_frame:
  "\<exists>s'. update_category s = Inr s' \<and>
        categories s' = categories s \<and>
        category_summaries s' = category_summaries s \<and>
        sources_gathered s' = sources_gathered s \<and>
        date s' = date s \<and>
        newsletter_summary s' = newsletter_summary s \<and>
        search_tool_name s' = search_tool_name s \<and>
        s' = s\<lparr>current_category := current_category s', search_query := search_query s',
               web_research_results := web_research_results s'\<rparr>"
  by (simp add: update_category_def split: sum.splits)

theorem update_category_frame_witness:
  "\<exists>s'. update_category settled_state = Inr s' \<and> category_summaries s' = category_summaries settled_state \<and>
        categories s' = [''A'', ''B'']"
  using update_category_frame[of settled_state]
  by (auto simp: settled_state_def newsletter_input_def)

end
